theory Spec2Isabelle
  imports Main "HOL-Library.Sublist"
begin

section \<open>Strings and the character tables\<close>

text \<open>
  A Python \<open>str\<close> is a sequence of Unicode code points, and \<open>len\<close> counts code points.
  A code point is modelled as a natural number, a string as a list of them.
  \<open>lit\<close> turns an ASCII literal of the source into such a string.
\<close>

type_synonym codepoint = nat
type_synonym str = "codepoint list"

definition lit :: "string \<Rightarrow> str" where
  "lit s = map of_char s"

text \<open>
  The regular expression classes \<open>\w\<close> and \<open>\s\<close>, \<open>str.strip\<close> and \<open>str.title\<close> read the
  Unicode character database of the interpreter, which is not part of the repository.
  It is a parameter of every function that uses it:
  \<^item> \<open>isalnum\<close>: the code points that are alphanumeric (\<open>\w\<close> is these and the underscore);
  \<^item> \<open>isspace\<close>: the whitespace code points (\<open>\s\<close> and what \<open>strip\<close> removes);
  \<^item> \<open>str_title\<close>: the built-in \<open>str.title\<close>.
\<close>

record unicode_db =
  isalnum :: "codepoint \<Rightarrow> bool"
  isspace :: "codepoint \<Rightarrow> bool"
  str_title :: "str \<Rightarrow> str"

text \<open>The tables restricted to ASCII, used to evaluate the functions on examples.\<close>

definition ascii_upper :: "codepoint \<Rightarrow> bool" where
  "ascii_upper c = (65 \<le> c \<and> c \<le> 90)"

definition ascii_lower :: "codepoint \<Rightarrow> bool" where
  "ascii_lower c = (97 \<le> c \<and> c \<le> 122)"

definition ascii_digit :: "codepoint \<Rightarrow> bool" where
  "ascii_digit c = (48 \<le> c \<and> c \<le> 57)"

fun ascii_title_from :: "bool \<Rightarrow> str \<Rightarrow> str" where
  "ascii_title_from prev_cased [] = []"
| "ascii_title_from prev_cased (c # cs) =
     (if prev_cased then (if ascii_upper c then c + 32 else c)
      else (if ascii_lower c then c - 32 else c))
     # ascii_title_from (ascii_upper c \<or> ascii_lower c) cs"

definition ascii_db :: unicode_db where
  "ascii_db = \<lparr>
     isalnum = (\<lambda>c. ascii_digit c \<or> ascii_upper c \<or> ascii_lower c),
     isspace = (\<lambda>c. c \<in> {9, 10, 11, 12, 13, 28, 29, 30, 31, 32}),
     str_title = ascii_title_from False \<rparr>"

section \<open>Sanitizer: \<open>clean_input\<close>\<close>

text \<open>
  The character class \<open>[^\w\s@.,-]\<close> matches one code point that is neither a word
  character, nor whitespace, nor one of \<open>@ . , -\<close>. \<open>allowed\<close> is its complement.
\<close>

definition allowed :: "unicode_db \<Rightarrow> codepoint \<Rightarrow> bool" where
  "allowed U c \<longleftrightarrow>
     isalnum U c \<or> c = 95 \<or> isspace U c \<or> c = 64 \<or> c = 46 \<or> c = 44 \<or> c = 45"

text \<open>\<open>re.sub(r'[^\w\s@.,-]', '', text)\<close>: every match is replaced by the empty string.\<close>

definition re_sub_disallowed :: "unicode_db \<Rightarrow> str \<Rightarrow> str" where
  "re_sub_disallowed U text = filter (allowed U) text"

text \<open>\<open>re.search(r'[^\w\s@.,-]', text)\<close> as a truth value: is there a match?\<close>

definition re_search_disallowed :: "unicode_db \<Rightarrow> str \<Rightarrow> bool" where
  "re_search_disallowed U text = list_ex (\<lambda>c. \<not> allowed U c) text"

text \<open>\<open>str.strip()\<close>: leading and trailing whitespace removed.\<close>

definition strip :: "unicode_db \<Rightarrow> str \<Rightarrow> str" where
  "strip U s = rev (dropWhile (isspace U) (rev (dropWhile (isspace U) s)))"

text \<open>
  \<open>clean_input(text)\<close>. The argument may be \<open>None\<close>; \<open>None\<close> and the empty string are
  falsy and give the empty string.
\<close>

definition clean_input :: "unicode_db \<Rightarrow> str option \<Rightarrow> str" where
  "clean_input U text =
     (case text of
        None \<Rightarrow> []
      | Some t \<Rightarrow> if t = [] then [] else strip U (re_sub_disallowed U t))"

section \<open>Validator: \<open>validate_inputs\<close>\<close>

text \<open>
  The keyword arguments are a dictionary in insertion order: an association list.
  \<open>field.replace('_', ' ').title()\<close> is the title of a field.
\<close>

type_synonym kwargs = "(str \<times> str) list"

definition replace_underscore :: "str \<Rightarrow> str" where
  "replace_underscore s = map (\<lambda>c. if c = 95 then 32 else c) s"

definition field_title :: "unicode_db \<Rightarrow> str \<Rightarrow> str" where
  "field_title U field = str_title U (replace_underscore field)"

definition too_short_msg :: "unicode_db \<Rightarrow> str \<Rightarrow> str" where
  "too_short_msg U field = field_title U field @ lit '' too short (min 3 chars)''"

definition too_long_msg :: "unicode_db \<Rightarrow> str \<Rightarrow> str" where
  "too_long_msg U field = field_title U field @ lit '' exceeds 500 chars''"

definition invalid_name_msg :: str where
  "invalid_name_msg = lit ''Invalid characters in name''"

text \<open>The body of the loop over the fields: the errors one field appends.\<close>

definition field_errors :: "unicode_db \<Rightarrow> str \<Rightarrow> str \<Rightarrow> str list" where
  "field_errors U field v =
     (if length v < 3 then [too_short_msg U field] else [])
     @ (if length v > 500 then [too_long_msg U field] else [])"

text \<open>\<open>kwargs.get('user_name', '')\<close>\<close>

definition get_user_name :: "kwargs \<Rightarrow> str" where
  "get_user_name kw = (case map_of kw (lit ''user_name'') of None \<Rightarrow> [] | Some v \<Rightarrow> v)"

definition validate_inputs :: "unicode_db \<Rightarrow> kwargs \<Rightarrow> str list" where
  "validate_inputs U kw =
     concat (map (\<lambda>(field, v). field_errors U field v) kw)
     @ (if re_search_disallowed U (get_user_name kw) then [invalid_name_msg] else [])"

section \<open>Session state\<close>

text \<open>
  A \<open>datetime\<close> is a point of the naive local time line, counted in microseconds.
  The difference of two of them is a \<open>timedelta\<close>, normalised by Python into days,
  seconds (\<open>0 \<le> seconds < 86400\<close>) and microseconds (\<open>0 \<le> microseconds < 1000000\<close>);
  its attribute \<open>.seconds\<close> is the seconds component alone.
\<close>

type_synonym datetime = int

definition timedelta_seconds :: "int \<Rightarrow> int" where
  "timedelta_seconds d = (d div 1000000) mod 86400"

record entry =
  name :: str
  timestamp :: str
  inputs :: kwargs
  advice :: str

record session_state =
  show_main :: bool
  history :: "entry list"
  api_errors :: int
  last_request :: "datetime option"
  error :: bool

definition required_states :: session_state where
  "required_states =
     \<lparr>show_main = False, history = [], api_errors = 0, last_request = None, error = False\<rparr>"

section \<open>Throttle guard\<close>

text \<open>
  The two checks that open the form handling; each ends the script run with \<open>st.stop()\<close>.
  \<open>now\<close> is the value of \<open>datetime.now()\<close> in the second check.
\<close>

datatype denial = TooManyErrors | RateLimited

datatype decision = Allow | Deny denial

definition throttle_guard :: "session_state \<Rightarrow> datetime \<Rightarrow> decision" where
  "throttle_guard s now =
     (if api_errors s > 3 then Deny TooManyErrors
      else case last_request s of
             None \<Rightarrow> Allow
           | Some t \<Rightarrow> if timedelta_seconds (now - t) < 5 then Deny RateLimited else Allow)"

section \<open>Advice client: \<open>get_career_advice\<close>\<close>

text \<open>
  The generative service is outside the program and not a function of the prompt, so
  the four profile fields, which only enter the prompt, are not arguments here, and
  what the call of the service does is an argument:
  \<^item> \<open>ResponseText t\<close>: the call returns and \<open>response.text\<close> is \<open>t\<close>;
  \<^item> \<open>Raises n\<close>: the call, or reading \<open>response.text\<close>, raises an exception of the type
    named \<open>n\<close> (the service is unavailable, or anything else goes wrong).
\<close>

datatype api_result = ResponseText str | Raises str

text \<open>
  The \<open>try\<close> block returns the text of the response, or raises: what the call raised,
  or \<open>ValueError\<close> when the text is empty. \<open>Inl\<close> holds the name of the exception type.
\<close>

definition try_block :: "api_result \<Rightarrow> str + str" where
  "try_block r =
     (case r of
        ResponseText t \<Rightarrow> if t = [] then Inl (lit ''ValueError'') else Inr t
      | Raises n \<Rightarrow> Inl n)"

text \<open>
  When the \<open>try\<close> block raises, Python first evaluates the expression of the first
  \<open>except\<close> clause, \<open>genai.types.GenerativeServiceError\<close>, to compare the exception with
  it. The module \<open>google.generativeai.types\<close> has no attribute of this name, so the
  evaluation raises \<open>AttributeError\<close>, and this exception leaves the function: the
  second \<open>except\<close> clause is not tried, and the body of neither clause runs. So no
  advisory text is returned, and neither the error counter nor the error flag is
  written: the state is returned as it was.
\<close>

datatype exn = AttributeError

definition get_career_advice ::
  "api_result \<Rightarrow> session_state \<Rightarrow> (exn + str) \<times> session_state" where
  "get_career_advice r s =
     (case try_block r of
        Inr t \<Rightarrow> (Inr t, s)
      | Inl raised \<Rightarrow> (Inl AttributeError, s))"

section \<open>Form handling\<close>

record form =
  user_name :: str
  education :: str
  skills :: str
  goals :: str
  interests :: str

text \<open>
  What one script run reads from outside: the clock at the rate-limit check, the
  answer of the service, the formatted time stamp of the new entry and the clock when
  \<open>last_request\<close> is set.
\<close>

record env =
  now_check :: datetime
  api :: api_result
  stamp :: str
  now_done :: datetime

text \<open>\<open>all([user_name, interests, skills, education, goals])\<close>: no field is empty.\<close>

definition all_filled :: "form \<Rightarrow> bool" where
  "all_filled f \<longleftrightarrow>
     user_name f \<noteq> [] \<and> interests f \<noteq> [] \<and> skills f \<noteq> [] \<and> education f \<noteq> []
     \<and> goals f \<noteq> []"

text \<open>
  The dictionary \<open>cleaned\<close>: the five fields in the order in which the script assigns
  them, each through \<open>clean_input\<close>.
\<close>

definition cleaned_fields :: "unicode_db \<Rightarrow> form \<Rightarrow> kwargs" where
  "cleaned_fields U f =
     [(lit ''user_name'', clean_input U (Some (user_name f))),
      (lit ''education'', clean_input U (Some (education f))),
      (lit ''skills'', clean_input U (Some (skills f))),
      (lit ''goals'', clean_input U (Some (goals f))),
      (lit ''interests'', clean_input U (Some (interests f)))]"

text \<open>
  The result of one submission, and the components it went through, in order.
  \<open>Stopped\<close> is \<open>st.stop()\<close>, \<open>Raised\<close> an exception that leaves the form handling.
\<close>

datatype outcome =
  Stopped denial
| IncompleteFields
| ValidationErrors "str list"
| Raised exn
| Appended entry

datatype component = Sanitizer | Validator | ThrottleGuard | AdviceClient

record run =
  result :: outcome
  calls :: "component list"
  state :: session_state

definition form_handling :: "unicode_db \<Rightarrow> env \<Rightarrow> form \<Rightarrow> session_state \<Rightarrow> run" where
  "form_handling U e f s =
     (case throttle_guard s (now_check e) of
        Deny d \<Rightarrow> \<lparr>result = Stopped d, calls = [ThrottleGuard], state = s\<rparr>
      | Allow \<Rightarrow>
          if \<not> all_filled f then
            \<lparr>result = IncompleteFields, calls = [ThrottleGuard], state = s\<rparr>
          else
            let cleaned = cleaned_fields U f;
                validation_errors = validate_inputs U cleaned
            in if validation_errors \<noteq> [] then
                 \<lparr>result = ValidationErrors validation_errors,
                  calls = [ThrottleGuard, Sanitizer, Validator], state = s\<rparr>
               else
                 case get_career_advice (api e) s of
                   (Inl x, s') \<Rightarrow>
                     \<lparr>result = Raised x,
                      calls = [ThrottleGuard, Sanitizer, Validator, AdviceClient],
                      state = s'\<rparr>
                 | (Inr text, s') \<Rightarrow>
                     let new = \<lparr>name = clean_input U (Some (user_name f)),
                                timestamp = stamp e,
                                inputs = cleaned,
                                advice = text\<rparr>
                     in \<lparr>result = Appended new,
                         calls = [ThrottleGuard, Sanitizer, Validator, AdviceClient],
                         state = s'\<lparr>history := history s' @ [new],
                                     last_request := Some (now_done e)\<rparr>\<rparr>)"

text \<open>A session: one submission after the other, each on the state the last one left.\<close>

fun run_session ::
  "unicode_db \<Rightarrow> (env \<times> form) list \<Rightarrow> session_state \<Rightarrow> outcome list \<times> session_state" where
  "run_session U [] s = ([], s)"
| "run_session U ((e, f) # rest) s =
     (let r = form_handling U e f s;
          (outs, s') = run_session U rest (state r)
      in (result r # outs, s'))"

fun appended :: "outcome list \<Rightarrow> entry list" where
  "appended [] = []"
| "appended (Appended new # outs) = new # appended outs"
| "appended (_ # outs) = appended outs"

text \<open>
  A request obtains advice when it passes the guard, the empty-field check and the
  validator, and the service answers with a text that is not empty;
  \<open>obtains_advice\<close> is that text. \<open>successful_requests\<close> counts the requests of a
  session that obtain advice, and \<open>successful_entries\<close> lists, in the order of the
  requests, the entries they should leave: the sanitized name and fields, the time
  stamp and the advice. Each request meets the state that the requests before it left.
\<close>

definition obtains_advice :: "unicode_db \<Rightarrow> env \<Rightarrow> form \<Rightarrow> session_state \<Rightarrow> str option" where
  "obtains_advice U e f s =
     (if throttle_guard s (now_check e) = Allow \<and> all_filled f
         \<and> validate_inputs U (cleaned_fields U f) = []
      then (case api e of
              ResponseText t \<Rightarrow> if t = [] then None else Some t
            | Raises n \<Rightarrow> None)
      else None)"

definition expected_entry :: "unicode_db \<Rightarrow> env \<Rightarrow> form \<Rightarrow> str \<Rightarrow> entry" where
  "expected_entry U e f t =
     \<lparr>name = clean_input U (Some (user_name f)), timestamp = stamp e,
      inputs = cleaned_fields U f, advice = t\<rparr>"

fun successful_requests :: "unicode_db \<Rightarrow> (env \<times> form) list \<Rightarrow> session_state \<Rightarrow> nat" where
  "successful_requests U [] s = 0"
| "successful_requests U ((e, f) # rest) s =
     (case obtains_advice U e f s of None \<Rightarrow> 0 | Some t \<Rightarrow> 1)
     + successful_requests U rest (state (form_handling U e f s))"

fun successful_entries ::
  "unicode_db \<Rightarrow> (env \<times> form) list \<Rightarrow> session_state \<Rightarrow> entry list" where
  "successful_entries U [] s = []"
| "successful_entries U ((e, f) # rest) s =
     (case obtains_advice U e f s of None \<Rightarrow> [] | Some t \<Rightarrow> [expected_entry U e f t])
     @ successful_entries U rest (state (form_handling U e f s))"

section \<open>History store\<close>

text \<open>
  \<open>history[-1]\<close> under the guard \<open>if st.session_state.history\<close>, and
  \<open>reversed(st.session_state.history)\<close>.
\<close>

definition latest :: "session_state \<Rightarrow> entry option" where
  "latest s = (if history s = [] then None else Some (last (history s)))"

definition reversed_history :: "session_state \<Rightarrow> entry list" where
  "reversed_history s = rev (history s)"

text \<open>
  \<open>precedes a b tr\<close>: in the sequence \<open>tr\<close>, an \<open>a\<close> comes before the first \<open>b\<close>
  (and so it holds when there is no \<open>b\<close>).
\<close>

fun precedes :: "'a \<Rightarrow> 'a \<Rightarrow> 'a list \<Rightarrow> bool" where
  "precedes a b [] = True"
| "precedes a b (x # xs) = (if x = b then False else if x = a then True else precedes a b xs)"

section \<open>PDF exporter: \<open>generate_pdf\<close>\<close>

text \<open>
  The document is built by the reportlab library, which is not part of the repository.
  Two of its operations can raise: the constructor \<open>Paragraph(text, style)\<close>, which
  parses the text as markup, and \<open>doc.build(story)\<close>, which writes the document into
  the buffer. Both are parameters: \<open>paragraph_ok\<close> says whether the constructor
  returns, \<open>doc_build\<close> gives the bytes written, or \<open>None\<close> when it raises.
\<close>

datatype style = Title | Heading2 | BodyText

datatype flowable = Paragraph str style | Spacer nat nat

record reportlab =
  paragraph_ok :: "str \<Rightarrow> style \<Rightarrow> bool"
  doc_build :: "flowable list \<Rightarrow> nat list option"

text \<open>
  \<open>content.split('\n')\<close>: the pieces between the separators. The result is never the
  empty list, so the first case of the \<open>case\<close> below is never taken.
\<close>

fun split_on :: "'a \<Rightarrow> 'a list \<Rightarrow> 'a list list" where
  "split_on sep [] = [[]]"
| "split_on sep (c # cs) =
     (if c = sep then [] # split_on sep cs
      else (case split_on sep cs of
              [] \<Rightarrow> [[c]]
            | piece # pieces \<Rightarrow> (c # piece) # pieces))"

text \<open>
  The lines of a text, said the other way round: putting the separator between the
  pieces gives the text back.
\<close>

fun join_with :: "'a \<Rightarrow> 'a list list \<Rightarrow> 'a list" where
  "join_with sep [] = []"
| "join_with sep [piece] = piece"
| "join_with sep (piece # next # pieces) = piece @ sep # join_with sep (next # pieces)"

text \<open>\<open>line.startswith('#')\<close> chooses the style of a line.\<close>

definition line_style :: "str \<Rightarrow> style" where
  "line_style line = (case line of [] \<Rightarrow> BodyText | c # _ \<Rightarrow> if c = 35 then Heading2 else BodyText)"

definition new_paragraph :: "reportlab \<Rightarrow> str \<Rightarrow> style \<Rightarrow> flowable option" where
  "new_paragraph R t st = (if paragraph_ok R t st then Some (Paragraph t st) else None)"

text \<open>The loop over the lines; \<open>story\<close> is the list built so far.\<close>

fun process_content :: "reportlab \<Rightarrow> str list \<Rightarrow> flowable list \<Rightarrow> flowable list option" where
  "process_content R [] story = Some story"
| "process_content R (line # lines) story =
     (case new_paragraph R line (line_style line) of
        None \<Rightarrow> None
      | Some p \<Rightarrow> process_content R lines (story @ [p, Spacer 1 3]))"

text \<open>
  \<open>generate_pdf(content, title)\<close>: the whole body is inside \<open>try\<close>, and every exception
  gives \<open>None\<close>.
\<close>

definition generate_pdf :: "reportlab \<Rightarrow> str \<Rightarrow> str \<Rightarrow> nat list option" where
  "generate_pdf R content title =
     (case new_paragraph R (lit ''<b>'' @ title @ lit ''</b>'') Title of
        None \<Rightarrow> None
      | Some t \<Rightarrow>
          (case process_content R (split_on 10 content) [t, Spacer 1 12] of
             None \<Rightarrow> None
           | Some story \<Rightarrow> doc_build R story))"

text \<open>
  The layout the specification describes: a title block, then one paragraph and a
  small spacer for every line of the content.
\<close>

definition story_layout :: "str \<Rightarrow> str \<Rightarrow> flowable list" where
  "story_layout content title =
     [Paragraph (lit ''<b>'' @ title @ lit ''</b>'') Title, Spacer 1 12]
     @ concat (map (\<lambda>line. [Paragraph line (line_style line), Spacer 1 3]) (split_on 10 content))"

fun paragraph_texts :: "flowable list \<Rightarrow> str list" where
  "paragraph_texts [] = []"
| "paragraph_texts (Paragraph t st # fs) = t # paragraph_texts fs"
| "paragraph_texts (Spacer w h # fs) = paragraph_texts fs"

definition non_empty_lines :: "str \<Rightarrow> nat" where
  "non_empty_lines content = length (filter (\<lambda>line. line \<noteq> []) (split_on 10 content))"

text \<open>A library that accepts every paragraph and writes one byte per flowable, for examples.\<close>

definition example_reportlab :: reportlab where
  "example_reportlab =
     \<lparr>paragraph_ok = (\<lambda>t st. True), doc_build = (\<lambda>story. Some (map (\<lambda>f. 0) story))\<rparr>"

section \<open>Example inputs\<close>

definition example_form :: form where
  "example_form =
     \<lparr>user_name = lit ''Jane Doe'', education = lit ''B.Tech CSE'', skills = lit ''Python'',
      goals = lit ''AI Engineer'', interests = lit ''Machine Learning''\<rparr>"

definition example_env :: env where
  "example_env =
     \<lparr>now_check = 1000000, api = ResponseText (lit ''## Path 1''),
      stamp = lit ''03 Nov 2026 14:52'', now_done = 3000000\<rparr>"

definition example_env_unavailable :: env where
  "example_env_unavailable = example_env\<lparr>api := Raises (lit ''ServiceUnavailable'')\<rparr>"

definition example_session :: "(env \<times> form) list" where
  "example_session =
     [(example_env, example_form),
      (example_env\<lparr>now_check := 4000000, now_done := 5000000\<rparr>, example_form),
      (example_env_unavailable\<lparr>now_check := 9000000\<rparr>, example_form),
      (example_env\<lparr>now_check := 15000000, now_done := 15500000,
                   stamp := lit ''03 Nov 2026 14:53''\<rparr>, example_form)]"

definition example_state :: session_state where
  "example_state = required_states\<lparr>show_main := True\<rparr>"

section \<open>JSON exporter: \<open>export_json\<close>\<close>

text \<open>
  The values that the program hands to \<open>json.dumps\<close> are an entry (a dictionary whose
  values are strings and one dictionary of strings) or the history (a list of entries).
  \<open>json\<close> holds these Python values: strings, dictionaries in insertion order, lists.
\<close>

datatype json = JString str | JObject "(str \<times> json) list" | JArray "json list"

definition entry_value :: "entry \<Rightarrow> json" where
  "entry_value en =
     JObject [(lit ''name'', JString (name en)),
              (lit ''timestamp'', JString (timestamp en)),
              (lit ''inputs'', JObject (map (\<lambda>(k, v). (k, JString v)) (inputs en))),
              (lit ''advice'', JString (advice en))]"

definition history_value :: "entry list \<Rightarrow> json" where
  "history_value h = JArray (map entry_value h)"

text \<open>
  A Python dictionary has no key twice; \<open>dict_keys_distinct\<close> says so for every
  dictionary inside a value.
\<close>

fun dict_keys_distinct :: "json \<Rightarrow> bool"
  and dict_values_distinct :: "(str \<times> json) list \<Rightarrow> bool"
  and list_values_distinct :: "json list \<Rightarrow> bool" where
  "dict_keys_distinct (JString s) = True"
| "dict_keys_distinct (JObject kvs) = (distinct (map fst kvs) \<and> dict_values_distinct kvs)"
| "dict_keys_distinct (JArray vs) = list_values_distinct vs"
| "dict_values_distinct [] = True"
| "dict_values_distinct ((k, v) # kvs) = (dict_keys_distinct v \<and> dict_values_distinct kvs)"
| "list_values_distinct [] = True"
| "list_values_distinct (v # vs) = (dict_keys_distinct v \<and> list_values_distinct vs)"

subsection \<open>The encoder of the standard library, with \<open>indent=2\<close> and \<open>ensure_ascii=False\<close>\<close>

text \<open>
  With \<open>ensure_ascii=False\<close> a string is written between double quotes, and only the
  double quote, the backslash and the control characters below 32 are escaped: the
  first two with a backslash, \<open>\n \r \t \b \f\<close> by their letter, the other control
  characters as \<open>\u\<close> and four lower-case hexadecimal digits. Every other code point
  stands for itself.
\<close>

definition hex_digit :: "nat \<Rightarrow> codepoint" where
  "hex_digit d = (if d < 10 then 48 + d else 87 + d)"

text \<open>\<open>'{0:04x}'.format(i)\<close>, for \<open>i\<close> below 65536.\<close>

definition hex4 :: "nat \<Rightarrow> str" where
  "hex4 i = [hex_digit (i div 4096 mod 16), hex_digit (i div 256 mod 16),
             hex_digit (i div 16 mod 16), hex_digit (i mod 16)]"

definition escape_char :: "codepoint \<Rightarrow> str" where
  "escape_char c =
     (if c = 34 then [92, 34]
      else if c = 92 then [92, 92]
      else if c = 10 then [92, 110]
      else if c = 13 then [92, 114]
      else if c = 9 then [92, 116]
      else if c = 8 then [92, 98]
      else if c = 12 then [92, 102]
      else if c < 32 then [92, 117] @ hex4 c
      else [c])"

text \<open>The escaped text with its closing quote, and the whole string.\<close>

definition encode_string_body :: "str \<Rightarrow> str" where
  "encode_string_body s = concat (map escape_char s) @ [34]"

definition encode_basestring :: "str \<Rightarrow> str" where
  "encode_basestring s = 34 # encode_string_body s"

text \<open>A line feed and two spaces for every level of nesting.\<close>

definition newline_indent :: "nat \<Rightarrow> str" where
  "newline_indent level = 10 # replicate (2 * level) 32"

text \<open>
  \<open>encode level v\<close> is the text of \<open>v\<close> at nesting level \<open>level\<close>. A dictionary or a
  list that is not empty puts each item on a line of its own, one level deeper, the
  items separated by a comma, a key and its value by a colon and a space.
\<close>

fun encode :: "nat \<Rightarrow> json \<Rightarrow> str"
  and encode_items :: "nat \<Rightarrow> (str \<times> json) list \<Rightarrow> str"
  and encode_elements :: "nat \<Rightarrow> json list \<Rightarrow> str" where
  "encode level (JString s) = encode_basestring s"
| "encode level (JObject kvs) =
     (if kvs = [] then [123, 125]
      else [123] @ newline_indent (Suc level) @ encode_items (Suc level) kvs
           @ newline_indent level @ [125])"
| "encode level (JArray vs) =
     (if vs = [] then [91, 93]
      else [91] @ newline_indent (Suc level) @ encode_elements (Suc level) vs
           @ newline_indent level @ [93])"
| "encode_items level [] = []"
| "encode_items level ((k, v) # kvs) =
     encode_basestring k @ [58, 32] @ encode level v
     @ (if kvs = [] then [] else [44] @ newline_indent level @ encode_items level kvs)"
| "encode_elements level [] = []"
| "encode_elements level (v # vs) =
     encode level v
     @ (if vs = [] then [] else [44] @ newline_indent level @ encode_elements level vs)"

text \<open>\<open>export_json(data)\<close> is \<open>json.dumps(data, indent=2, ensure_ascii=False)\<close>.\<close>

definition export_json :: "json \<Rightarrow> str" where
  "export_json data = encode 0 data"

subsection \<open>The decoder of the standard library\<close>

text \<open>
  \<open>json.loads\<close>, for the texts that hold strings, objects and arrays. Numbers and the
  constants \<open>null\<close>, \<open>true\<close>, \<open>false\<close> are left out: for them, as for a text that
  is not JSON, the result here is \<open>None\<close>. A function reads a value at the start of
  its argument and returns it with the text that follows.
\<close>

definition is_ws :: "codepoint \<Rightarrow> bool" where
  "is_ws c \<longleftrightarrow> c = 32 \<or> c = 9 \<or> c = 10 \<or> c = 13"

definition skip_ws :: "str \<Rightarrow> str" where
  "skip_ws s = dropWhile is_ws s"

definition hex_value :: "codepoint \<Rightarrow> nat option" where
  "hex_value c =
     (if 48 \<le> c \<and> c \<le> 57 then Some (c - 48)
      else if 65 \<le> c \<and> c \<le> 70 then Some (c - 55)
      else if 97 \<le> c \<and> c \<le> 102 then Some (c - 87)
      else None)"

text \<open>
  \<open>_decode_uXXXX\<close>: the value of the four hexadecimal digits after \<open>\u\<close>; anything
  else there is an error.
\<close>

definition decode_uXXXX :: "str \<Rightarrow> nat option" where
  "decode_uXXXX s =
     (case s of
        a # b # c # d # _ \<Rightarrow>
          (case (hex_value a, hex_value b, hex_value c, hex_value d) of
             (Some x, Some y, Some z, Some w) \<Rightarrow> Some (((x * 16 + y) * 16 + z) * 16 + w)
           | _ \<Rightarrow> None)
      | _ \<Rightarrow> None)"

text \<open>The table \<open>BACKSLASH\<close> of the one-letter escapes.\<close>

definition backslash :: "codepoint \<Rightarrow> codepoint option" where
  "backslash c =
     (if c = 34 then Some 34
      else if c = 92 then Some 92
      else if c = 47 then Some 47
      else if c = 98 then Some 8
      else if c = 102 then Some 12
      else if c = 110 then Some 10
      else if c = 114 then Some 13
      else if c = 116 then Some 9
      else None)"

definition prepend :: "codepoint \<Rightarrow> (str \<times> str) option \<Rightarrow> (str \<times> str) option" where
  "prepend c r = (case r of None \<Rightarrow> None | Some (t, rest) \<Rightarrow> Some (c # t, rest))"

text \<open>
  \<open>scanstring\<close> reads a string whose opening quote has been read, up to its closing
  quote. In strict mode a control character inside a string is an error. An escaped
  high surrogate followed by an escaped low surrogate is one code point.
\<close>

function scanstring :: "str \<Rightarrow> (str \<times> str) option" where
  "scanstring [] = None"
| "scanstring (c # cs) =
     (if c = 34 then Some ([], cs)
      else if c = 92 then
        (case cs of
           [] \<Rightarrow> None
         | esc # cs' \<Rightarrow>
             if esc = 117 then
               (case decode_uXXXX cs' of
                  None \<Rightarrow> None
                | Some uni \<Rightarrow>
                    if 55296 \<le> uni \<and> uni \<le> 56319 \<and> take 2 (drop 4 cs') = [92, 117] then
                      (case decode_uXXXX (drop 6 cs') of
                         None \<Rightarrow> None
                       | Some uni2 \<Rightarrow>
                           if 56320 \<le> uni2 \<and> uni2 \<le> 57343
                           then prepend (65536 + ((uni - 55296) * 1024 + (uni2 - 56320)))
                                  (scanstring (drop 10 cs'))
                           else prepend uni (scanstring (drop 4 cs')))
                    else prepend uni (scanstring (drop 4 cs')))
             else (case backslash esc of
                     None \<Rightarrow> None
                   | Some ch \<Rightarrow> prepend ch (scanstring cs')))
      else if c < 32 then None
      else prepend c (scanstring cs))"
  by pat_completeness auto
termination
  by (relation "measure length") auto

text \<open>\<open>dict(pairs)\<close>: a key that comes again keeps its place and takes the later value.\<close>

fun dict_set :: "('k \<times> 'v) list \<Rightarrow> 'k \<Rightarrow> 'v \<Rightarrow> ('k \<times> 'v) list" where
  "dict_set [] k v = [(k, v)]"
| "dict_set ((k', v') # d) k v = (if k' = k then (k, v) # d else (k', v') # dict_set d k v)"

definition dict_of_pairs :: "('k \<times> 'v) list \<Rightarrow> ('k \<times> 'v) list" where
  "dict_of_pairs pairs = foldl (\<lambda>d (k, v). dict_set d k v) [] pairs"

text \<open>
  \<open>parse_value\<close> is \<open>scan_once\<close>, \<open>parse_pairs\<close> the loop of \<open>JSONObject\<close> (it starts
  after the opening quote of a key), \<open>parse_values\<close> the loop of \<open>JSONArray\<close>. The
  first argument bounds the number of nested calls.
\<close>

fun parse_value :: "nat \<Rightarrow> str \<Rightarrow> (json \<times> str) option"
  and parse_pairs :: "nat \<Rightarrow> str \<Rightarrow> ((str \<times> json) list \<times> str) option"
  and parse_values :: "nat \<Rightarrow> str \<Rightarrow> (json list \<times> str) option" where
  "parse_value 0 s = None"
| "parse_value (Suc n) s =
     (case s of
        [] \<Rightarrow> None
      | c # cs \<Rightarrow>
          if c = 34 then
            (case scanstring cs of None \<Rightarrow> None | Some (t, rest) \<Rightarrow> Some (JString t, rest))
          else if c = 123 then
            (case skip_ws cs of
               [] \<Rightarrow> None
             | c1 # cs1 \<Rightarrow>
                 if c1 = 125 then Some (JObject [], cs1)
                 else if c1 = 34 then
                   (case parse_pairs n cs1 of
                      None \<Rightarrow> None
                    | Some (pairs, rest) \<Rightarrow> Some (JObject (dict_of_pairs pairs), rest))
                 else None)
          else if c = 91 then
            (case skip_ws cs of
               [] \<Rightarrow> None
             | c1 # cs1 \<Rightarrow>
                 if c1 = 93 then Some (JArray [], cs1)
                 else (case parse_values n (c1 # cs1) of
                         None \<Rightarrow> None
                       | Some (vs, rest) \<Rightarrow> Some (JArray vs, rest)))
          else None)"
| "parse_pairs 0 s = None"
| "parse_pairs (Suc n) s =
     (case scanstring s of
        None \<Rightarrow> None
      | Some (key, r1) \<Rightarrow>
          (case skip_ws r1 of
             [] \<Rightarrow> None
           | c # r2 \<Rightarrow>
               if c \<noteq> 58 then None
               else (case parse_value n (skip_ws r2) of
                       None \<Rightarrow> None
                     | Some (v, r3) \<Rightarrow>
                         (case skip_ws r3 of
                            [] \<Rightarrow> None
                          | d # r4 \<Rightarrow>
                              if d = 125 then Some ([(key, v)], r4)
                              else if d \<noteq> 44 then None
                              else (case skip_ws r4 of
                                      [] \<Rightarrow> None
                                    | q # r5 \<Rightarrow>
                                        if q \<noteq> 34 then None
                                        else (case parse_pairs n r5 of
                                                None \<Rightarrow> None
                                              | Some (pairs, rest) \<Rightarrow>
                                                  Some ((key, v) # pairs, rest)))))))"
| "parse_values 0 s = None"
| "parse_values (Suc n) s =
     (case parse_value n s of
        None \<Rightarrow> None
      | Some (v, r1) \<Rightarrow>
          (case skip_ws r1 of
             [] \<Rightarrow> None
           | d # r2 \<Rightarrow>
               if d = 93 then Some ([v], r2)
               else if d \<noteq> 44 then None
               else (case parse_values n (skip_ws r2) of
                       None \<Rightarrow> None
                     | Some (vs, rest) \<Rightarrow> Some (v # vs, rest))))"

text \<open>
  \<open>json.loads(s)\<close>: whitespace, one value, whitespace, and nothing more. No call
  nests deeper than the text is long.
\<close>

definition json_loads :: "str \<Rightarrow> json option" where
  "json_loads s =
     (case parse_value (Suc (length s)) (skip_ws s) of
        None \<Rightarrow> None
      | Some (v, rest) \<Rightarrow> if skip_ws rest = [] then Some v else None)"

text \<open>
  How many nested calls the decoder makes for a value: one for the value, and for the
  items of a dictionary or a list one more for every item before it.
\<close>

fun nesting :: "json \<Rightarrow> nat"
  and nesting_items :: "(str \<times> json) list \<Rightarrow> nat"
  and nesting_elements :: "json list \<Rightarrow> nat" where
  "nesting (JString s) = 1"
| "nesting (JObject kvs) = Suc (nesting_items kvs)"
| "nesting (JArray vs) = Suc (nesting_elements vs)"
| "nesting_items [] = 0"
| "nesting_items ((k, v) # kvs) = Suc (max (nesting v) (nesting_items kvs))"
| "nesting_elements [] = 0"
| "nesting_elements (v # vs) = Suc (max (nesting v) (nesting_elements vs))"

subsection \<open>The exported text of an entry, written out\<close>

text \<open>
  The text that the export of an entry should be, code point by code point: an opening
  brace; the four fields \<open>name\<close>, \<open>timestamp\<close>, \<open>inputs\<close>, \<open>advice\<close> in this order,
  each on a line of its own that starts with two spaces, a comma after every field but
  the last; a closing brace on the last line. The fields of \<open>inputs\<close> stand in their
  own order on lines that start with four spaces, between a brace and a closing brace
  indented by two spaces. \<open>q\<close> says how a string is written; \<open>quoted\<close> writes it as
  it is between double quotes.
\<close>

definition quoted :: "str \<Rightarrow> str" where
  "quoted s = [34] @ s @ [34]"

fun inputs_text :: "(str \<Rightarrow> str) \<Rightarrow> kwargs \<Rightarrow> str" where
  "inputs_text q [] = []"
| "inputs_text q [(k, v)] = [32, 32, 32, 32] @ q k @ [58, 32] @ q v"
| "inputs_text q ((k, v) # next # kw) =
     [32, 32, 32, 32] @ q k @ [58, 32] @ q v @ [44, 10] @ inputs_text q (next # kw)"

definition entry_text :: "(str \<Rightarrow> str) \<Rightarrow> entry \<Rightarrow> str" where
  "entry_text q en =
     [123, 10]
     @ [32, 32] @ q (lit ''name'') @ [58, 32] @ q (name en) @ [44, 10]
     @ [32, 32] @ q (lit ''timestamp'') @ [58, 32] @ q (timestamp en) @ [44, 10]
     @ [32, 32] @ q (lit ''inputs'') @ [58, 32]
     @ (if inputs en = [] then [123, 125]
        else [123, 10] @ inputs_text q (inputs en) @ [10, 32, 32, 125])
     @ [44, 10]
     @ [32, 32] @ q (lit ''advice'') @ [58, 32] @ q (advice en)
     @ [10, 125]"

text \<open>The code points of every string of an entry, keys included.\<close>

definition entry_codepoints :: "entry \<Rightarrow> codepoint list" where
  "entry_codepoints en =
     name en @ timestamp en @ advice en @ concat (map (\<lambda>(k, v). k @ v) (inputs en))"

text \<open>
  An entry whose strings need no escape, with text outside ASCII, and an entry with
  characters that are escaped.
\<close>

definition example_plain_entry :: entry where
  "example_plain_entry =
     \<lparr>name = lit ''Zo'' @ [233],
      timestamp = lit ''03 Nov'',
      inputs = [(lit ''goals'', lit ''AI''), (lit ''skills'', [128013])],
      advice = [128640] @ lit '' Go''\<rparr>"



definition example_entry :: entry where
  "example_entry =
     \<lparr>name = lit ''Zo'' @ [233] @ lit '' Doe'',
      timestamp = lit ''03 Nov 2026 14:52'',
      inputs = [(lit ''user_name'', lit ''Zo'' @ [233] @ lit '' Doe''),
                (lit ''skills'', lit ''Python'')],
      advice = lit ''## Path 1'' @ [10, 128640] @ lit '' say '' @ [34] @ lit ''hi'' @ [34, 92, 1]\<rparr>"

section \<open>Properties of the sanitizer\<close>

lemma set_strip: "set (strip U s) \<subseteq> set s"
proof -
  have "set (strip U s) \<subseteq> set (dropWhile (isspace U) s)"
    unfolding strip_def using set_dropWhileD by fastforce
  also have "\<dots> \<subseteq> set s" using set_dropWhileD by fastforce
  finally show ?thesis .
qed

lemma strip_fixed:
  assumes "s = [] \<or> (\<not> isspace U (hd s) \<and> \<not> isspace U (last s))"
  shows "strip U s = s"
proof (cases "s = []")
  case True
  then show ?thesis by (simp add: strip_def)
next
  case False
  with assms have h: "\<not> isspace U (hd s)" and l: "\<not> isspace U (last s)" by auto
  from False h have a: "dropWhile (isspace U) s = s" by (cases s) auto
  from False l have "\<not> isspace U (hd (rev s))" by (simp add: hd_rev)
  with False have b: "dropWhile (isspace U) (rev s) = rev s" by (cases "rev s") auto
  show ?thesis by (simp add: strip_def a b)
qed

lemma last_dropWhile_nonempty:
  "dropWhile P xs \<noteq> [] \<Longrightarrow> last (dropWhile P xs) = last xs"
  by (induction xs) (auto split: if_splits)

lemma strip_ends:
  assumes "strip U s \<noteq> []"
  shows "\<not> isspace U (hd (strip U s)) \<and> \<not> isspace U (last (strip U s))"
proof -
  define t where "t = dropWhile (isspace U) s"
  define r where "r = dropWhile (isspace U) (rev t)"
  have sr: "strip U s = rev r" by (simp add: strip_def r_def t_def)
  from assms have r: "r \<noteq> []" by (simp add: sr)
  have t: "t \<noteq> []"
  proof
    assume "t = []"
    then have "r = []" by (simp add: r_def)
    with r show False by contradiction
  qed
  have "last (strip U s) = hd r" using r by (simp add: sr last_rev)
  moreover have "\<not> isspace U (hd r)" using r unfolding r_def by (rule hd_dropWhile)
  moreover have "hd (strip U s) = last r" using r by (simp add: sr hd_rev)
  moreover have "last r = last (rev t)" using r unfolding r_def by (simp add: last_dropWhile_nonempty)
  moreover have "last (rev t) = hd t" using t by (simp add: last_rev)
  moreover have "\<not> isspace U (hd t)" using t unfolding t_def by (rule hd_dropWhile)
  ultimately show ?thesis by simp
qed

lemma strip_idem: "strip U (strip U s) = strip U s"
  using strip_ends [of U s] by (intro strip_fixed) blast

lemma clean_input_allowed:
  assumes "c \<in> set (clean_input U inp)"
  shows "allowed U c"
proof (cases inp)
  case None
  with assms show ?thesis by (simp add: clean_input_def)
next
  case (Some t)
  with assms have "c \<in> set (strip U (re_sub_disallowed U t))"
    by (simp add: clean_input_def split: if_splits)
  with set_strip [of U "re_sub_disallowed U t"] have "c \<in> set (re_sub_disallowed U t)" by blast
  then show ?thesis by (simp add: re_sub_disallowed_def)
qed

lemma clean_input_ends:
  assumes "clean_input U inp \<noteq> []"
  shows "\<not> isspace U (hd (clean_input U inp)) \<and> \<not> isspace U (last (clean_input U inp))"
proof (cases inp)
  case None
  with assms show ?thesis by (simp add: clean_input_def)
next
  case (Some t)
  with assms have "clean_input U inp = strip U (re_sub_disallowed U t)"
    by (simp add: clean_input_def split: if_splits)
  with assms strip_ends [of U "re_sub_disallowed U t"] show ?thesis by simp
qed

lemma clean_input_idem: "clean_input U (Some (clean_input U inp)) = clean_input U inp"
proof (cases inp)
  case None
  then show ?thesis by (simp add: clean_input_def)
next
  case (Some t)
  define c where "c = strip U (re_sub_disallowed U t)"
  have "\<forall>x \<in> set c. allowed U x"
    using set_strip [of U "re_sub_disallowed U t"] by (auto simp: c_def re_sub_disallowed_def)
  then have "re_sub_disallowed U c = c" by (simp add: re_sub_disallowed_def)
  then have "strip U (re_sub_disallowed U c) = c" by (simp add: c_def strip_idem)
  with Some show ?thesis by (simp add: clean_input_def c_def strip_def)
qed

text \<open>
  Claim C6. The result of \<open>clean_input\<close> holds only word characters (alphanumeric or
  underscore), whitespace and the characters \<open>@ . , -\<close>; it neither starts nor ends with
  whitespace; sanitizing a sanitized text changes nothing; \<open>None\<close> and the empty
  string give the empty string.
\<close>

theorem clean_input_sanitizes:
  "(\<forall>c \<in> set (clean_input U inp).
      isalnum U c \<or> c = of_char CHR ''_'' \<or> isspace U c
      \<or> c \<in> of_char ` {CHR ''@'', CHR ''.'', CHR '','', CHR ''-''})
   \<and> (clean_input U inp \<noteq> [] \<longrightarrow>
        \<not> isspace U (hd (clean_input U inp)) \<and> \<not> isspace U (last (clean_input U inp)))
   \<and> clean_input U (Some (clean_input U inp)) = clean_input U inp
   \<and> clean_input U None = [] \<and> clean_input U (Some []) = []"
proof -
  have "\<forall>c \<in> set (clean_input U inp).
      isalnum U c \<or> c = of_char CHR ''_'' \<or> isspace U c
      \<or> c \<in> of_char ` {CHR ''@'', CHR ''.'', CHR '','', CHR ''-''}"
    using clean_input_allowed [of _ U inp] by (auto simp: allowed_def)
  moreover have "clean_input U None = [] \<and> clean_input U (Some []) = []"
    by (simp add: clean_input_def)
  ultimately show ?thesis
    using clean_input_ends [of U inp] clean_input_idem [of U inp] by blast
qed

theorem clean_input_sanitizes_witness:
  "clean_input ascii_db (Some (lit ''John@Doe!!!  '')) = lit ''John@Doe''
   \<and> clean_input ascii_db (Some (lit ''John@Doe!!!  '')) \<noteq> []
   \<and> \<not> isspace ascii_db (hd (clean_input ascii_db (Some (lit ''John@Doe!!!  ''))))
   \<and> \<not> isspace ascii_db (last (clean_input ascii_db (Some (lit ''John@Doe!!!  ''))))
   \<and> list_all (allowed ascii_db) (clean_input ascii_db (Some (lit ''John@Doe!!!  '')))
   \<and> clean_input ascii_db (Some (clean_input ascii_db (Some (lit ''John@Doe!!!  ''))))
       = lit ''John@Doe''"
proof -
  have v: "clean_input ascii_db (Some (lit ''John@Doe!!!  '')) = lit ''John@Doe''"
    by code_simp
  then have n: "clean_input ascii_db (Some (lit ''John@Doe!!!  '')) \<noteq> []"
    by (simp add: lit_def)
  from clean_input_sanitizes [of ascii_db "Some (lit ''John@Doe!!!  '')"]
  have "\<forall>c \<in> set (clean_input ascii_db (Some (lit ''John@Doe!!!  ''))). allowed ascii_db c"
    by (auto simp: allowed_def)
  then have a: "list_all (allowed ascii_db) (clean_input ascii_db (Some (lit ''John@Doe!!!  '')))"
    by (simp add: list_all_iff)
  from clean_input_sanitizes [of ascii_db "Some (lit ''John@Doe!!!  '')"] v n a
  show ?thesis by metis
qed

section \<open>Properties of the validator\<close>
















section \<open>Properties of the throttle guard\<close>

text \<open>
  Within one day after the last request the rate limit is the five seconds of its
  message: the request is denied iff less than five seconds have passed.
\<close>

lemma throttle_guard_within_a_day:
  assumes "api_errors s \<le> 3" and "last_request s = Some t"
    and "0 \<le> now - t" and "now - t < 86400000000"
  shows "throttle_guard s now = Deny RateLimited \<longleftrightarrow> now - t < 5000000"
    and "throttle_guard s now = Allow \<longleftrightarrow> 5000000 \<le> now - t"
proof -
  define d where "d = now - t"
  have a: "d div 1000000 < 86400" using assms(4) unfolding d_def by linarith
  have b: "0 \<le> d div 1000000" using assms(3) unfolding d_def by simp
  from a b have m: "timedelta_seconds d = d div 1000000"
    by (simp add: timedelta_seconds_def)
  have c: "d div 1000000 < 5 \<longleftrightarrow> d < 5000000" by linarith
  show "throttle_guard s now = Deny RateLimited \<longleftrightarrow> now - t < 5000000"
    using assms(1,2) m c by (simp add: throttle_guard_def d_def)
  show "throttle_guard s now = Allow \<longleftrightarrow> 5000000 \<le> now - t"
    using assms(1,2) m c by (auto simp add: throttle_guard_def d_def)
qed

text \<open>
  Claim C2. The claim says that a request is allowed whenever at least five seconds
  have passed since the last one. The code compares the seconds component of the
  elapsed time, not the elapsed time: one day and two seconds after the last request
  (86402 seconds, the error count at zero) the request is denied as rate limited.
\<close>

theorem throttle_guard_day_wrap:
  "(5000000 :: int) \<le> 86402000000 - 0
   \<and> api_errors (example_state\<lparr>last_request := Some 0\<rparr>) = 0
   \<and> throttle_guard (example_state\<lparr>last_request := Some 0\<rparr>) 86402000000 = Deny RateLimited
   \<and> result (form_handling ascii_db (example_env\<lparr>now_check := 86402000000\<rparr>) example_form
               (example_state\<lparr>last_request := Some 0\<rparr>)) = Stopped RateLimited"
  by (simp add: form_handling_def throttle_guard_def example_state_def required_states_def
                timedelta_seconds_def)

text \<open>
  Claim C3. With more than three recorded errors the guard denies the request, whatever
  the clock and the last request time are, and the form handling stops with that denial;
  with three errors or fewer it never denies for the error count.
\<close>

theorem throttle_error_ceiling:
  "(api_errors s > 3 \<longrightarrow>
      throttle_guard s now = Deny TooManyErrors
      \<and> result (form_handling U e f s) = Stopped TooManyErrors)
   \<and> (api_errors s \<le> 3 \<longrightarrow>
      throttle_guard s now \<noteq> Deny TooManyErrors
      \<and> result (form_handling U e f s) \<noteq> Stopped TooManyErrors)"
  by (auto simp: throttle_guard_def form_handling_def Let_def
           split: option.splits if_splits decision.splits prod.splits sum.splits)

theorem throttle_error_ceiling_witness:
  "api_errors (example_state\<lparr>api_errors := 4\<rparr>) > 3
   \<and> throttle_guard (example_state\<lparr>api_errors := 4\<rparr>) 3600000000 = Deny TooManyErrors
   \<and> api_errors example_state \<le> 3
   \<and> throttle_guard example_state 3600000000 \<noteq> Deny TooManyErrors"
proof -
  have a: "api_errors (example_state\<lparr>api_errors := 4\<rparr>) > 3" by simp
  have b: "api_errors example_state \<le> 3"
    by (simp add: example_state_def required_states_def)
  from a b
    throttle_error_ceiling [of "example_state\<lparr>api_errors := 4\<rparr>" 3600000000]
    throttle_error_ceiling [of example_state 3600000000]
  show ?thesis by blast
qed

section \<open>Properties of the form handling\<close>

lemma form_handling_calls:
  "calls (form_handling U e f s) =
     (if throttle_guard s (now_check e) = Allow \<and> all_filled f then
        if validate_inputs U (cleaned_fields U f) = []
        then [ThrottleGuard, Sanitizer, Validator, AdviceClient]
        else [ThrottleGuard, Sanitizer, Validator]
      else [ThrottleGuard])"
  by (simp add: form_handling_def Let_def split: decision.splits prod.splits sum.splits)

lemma form_handling_reaches_advice:
  "AdviceClient \<in> set (calls (form_handling U e f s))
     \<longleftrightarrow> throttle_guard s (now_check e) = Allow \<and> all_filled f
         \<and> validate_inputs U (cleaned_fields U f) = []"
  by (auto simp: form_handling_calls)

text \<open>The example submission passes the guard, the empty-field check and the validator.\<close>

lemma example_allowed:
  "throttle_guard example_state (now_check example_env) = Allow"
  "throttle_guard example_state (now_check example_env_unavailable) = Allow"
  by code_simp+

lemma example_valid:
  "all_filled example_form"
  "validate_inputs ascii_db (cleaned_fields ascii_db example_form) = []"
  by code_simp+

lemma example_unavailable: "api example_env_unavailable = Raises (lit ''ServiceUnavailable'')"
  by (simp add: example_env_unavailable_def)

text \<open>
  Claim C4, as stated: the sanitizer and the validator run before the throttle guard.
  They do not. With four recorded errors, a submission whose \<open>interests\<close> field is too
  short is stopped by the guard: neither the sanitizer nor the validator has run, and
  the result is the denial, not the validation error.
\<close>

theorem throttle_before_sanitizer:
  "\<not> precedes Sanitizer ThrottleGuard
       (calls (form_handling ascii_db example_env (example_form\<lparr>interests := lit ''AI''\<rparr>)
                 (example_state\<lparr>api_errors := 4\<rparr>)))
   \<and> result (form_handling ascii_db example_env (example_form\<lparr>interests := lit ''AI''\<rparr>)
               (example_state\<lparr>api_errors := 4\<rparr>)) = Stopped TooManyErrors"
  by (simp add: form_handling_calls form_handling_def throttle_guard_def)

text \<open>
  Claim C4, amended. The steps of a submission are, in this order, the throttle guard,
  the sanitizer, the validator and the advice client, and a submission goes through an
  initial part of this sequence. The guard always runs first; the sanitizer runs iff
  the guard allows the request and no field is empty; the advice client is called iff
  moreover the validator returns no error. So a submission that the guard or the
  validator rejects never reaches the advice client.
\<close>

theorem form_handling_order:
  "prefix (calls (form_handling U e f s)) [ThrottleGuard, Sanitizer, Validator, AdviceClient]
   \<and> hd (calls (form_handling U e f s)) = ThrottleGuard
   \<and> (Sanitizer \<in> set (calls (form_handling U e f s))
        \<longleftrightarrow> throttle_guard s (now_check e) = Allow \<and> all_filled f)
   \<and> (AdviceClient \<in> set (calls (form_handling U e f s))
        \<longleftrightarrow> throttle_guard s (now_check e) = Allow \<and> all_filled f
            \<and> validate_inputs U (cleaned_fields U f) = [])
   \<and> (AdviceClient \<in> set (calls (form_handling U e f s))
        \<longleftrightarrow> (\<exists>x. result (form_handling U e f s) = Raised x)
            \<or> (\<exists>new. result (form_handling U e f s) = Appended new))"
proof -
  have r: "((\<exists>x. result (form_handling U e f s) = Raised x)
            \<or> (\<exists>new. result (form_handling U e f s) = Appended new))
     \<longleftrightarrow> throttle_guard s (now_check e) = Allow \<and> all_filled f
            \<and> validate_inputs U (cleaned_fields U f) = []"
    by (simp add: form_handling_def Let_def split: decision.splits prod.splits sum.splits)
  show ?thesis unfolding r by (auto simp: form_handling_calls)
qed

theorem form_handling_order_witness:
  "AdviceClient \<in> set (calls (form_handling ascii_db example_env example_form example_state))
   \<and> throttle_guard example_state (now_check example_env) = Allow
   \<and> all_filled example_form
   \<and> validate_inputs ascii_db (cleaned_fields ascii_db example_form) = []"
  using form_handling_order [of ascii_db example_env example_form example_state]
  by (simp add: example_allowed example_valid)

text \<open>
  Claim C1. When the advice call fails (the call of the service raises, whatever the
  exception, or the response is empty), no entry is appended: the history after the
  request is the history before it. More is true: the whole session state is what it
  was, and a submission that reached the advice client ends with the exception that
  leaves \<open>get_career_advice\<close>.
\<close>

theorem failed_advice_not_appended:
  "(api e = ResponseText [] \<or> api e = Raises n)
     \<longrightarrow> history (state (form_handling U e f s)) = history s
         \<and> (\<forall>new. result (form_handling U e f s) \<noteq> Appended new)
         \<and> state (form_handling U e f s) = s
         \<and> (AdviceClient \<in> set (calls (form_handling U e f s))
              \<longrightarrow> result (form_handling U e f s) = Raised AttributeError)"
proof -
  have "get_career_advice (api e) s = (Inl AttributeError, s)"
    if "api e = ResponseText [] \<or> api e = Raises n"
    using that by (auto simp: get_career_advice_def try_block_def)
  then show ?thesis
    by (auto simp: form_handling_def Let_def split: decision.splits)
qed

theorem failed_advice_not_appended_witness:
  "api example_env_unavailable = Raises (lit ''ServiceUnavailable'')
   \<and> AdviceClient \<in> set (calls (form_handling ascii_db example_env_unavailable example_form
                                        example_state))
   \<and> result (form_handling ascii_db example_env_unavailable example_form example_state)
       = Raised AttributeError
   \<and> history (state (form_handling ascii_db example_env_unavailable example_form
                        example_state)) = history example_state
   \<and> api (example_env\<lparr>api := ResponseText []\<rparr>) = ResponseText []
   \<and> history (state (form_handling ascii_db (example_env\<lparr>api := ResponseText []\<rparr>)
                       example_form example_state)) = history example_state"
proof -
  have a: "api (example_env\<lparr>api := ResponseText []\<rparr>) = ResponseText []" by simp
  have c: "AdviceClient \<in> set (calls (form_handling ascii_db example_env_unavailable
                                          example_form example_state))"
    by (simp add: form_handling_reaches_advice example_allowed example_valid)
  from a c example_unavailable
    failed_advice_not_appended [where e = "example_env\<lparr>api := ResponseText []\<rparr>"
                               and U = ascii_db and f = example_form and s = example_state]
    failed_advice_not_appended [where e = example_env_unavailable
                               and n = "lit ''ServiceUnavailable''"
                               and U = ascii_db and f = example_form and s = example_state]
  show ?thesis by blast
qed

text \<open>
  Claim C10. A submission that the form handling rejects before the advice call (too many
  errors, rate limit, an empty field, validation errors) leaves the whole session
  state as it was: the history, the error counter, the last request time, the error
  flag and the page flag. The four rejections are told apart by their causes.
\<close>

theorem rejection_frame:
  "(result (form_handling U e f s) = Stopped TooManyErrors \<longleftrightarrow> api_errors s > 3)
   \<and> (result (form_handling U e f s) = Stopped RateLimited
        \<longleftrightarrow> throttle_guard s (now_check e) = Deny RateLimited)
   \<and> (result (form_handling U e f s) = IncompleteFields
        \<longleftrightarrow> throttle_guard s (now_check e) = Allow \<and> \<not> all_filled f)
   \<and> ((\<exists>errs. result (form_handling U e f s) = ValidationErrors errs)
        \<longleftrightarrow> throttle_guard s (now_check e) = Allow \<and> all_filled f
            \<and> validate_inputs U (cleaned_fields U f) \<noteq> [])
   \<and> (result (form_handling U e f s) = Stopped TooManyErrors
        \<or> result (form_handling U e f s) = Stopped RateLimited
        \<or> result (form_handling U e f s) = IncompleteFields
        \<or> (\<exists>errs. result (form_handling U e f s) = ValidationErrors errs)
       \<longrightarrow> state (form_handling U e f s) = s)"
  by (auto simp: throttle_guard_def form_handling_def Let_def
           split: option.splits if_splits decision.splits prod.splits sum.splits)

theorem rejection_frame_witness:
  "result (form_handling ascii_db example_env (example_form\<lparr>interests := lit ''AI''\<rparr>)
             (example_state\<lparr>error := True\<rparr>))
     = ValidationErrors [lit ''Interests too short (min 3 chars)'']
   \<and> state (form_handling ascii_db example_env (example_form\<lparr>interests := lit ''AI''\<rparr>)
             (example_state\<lparr>error := True\<rparr>)) = example_state\<lparr>error := True\<rparr>"
proof -
  have "result (form_handling ascii_db example_env (example_form\<lparr>interests := lit ''AI''\<rparr>)
             (example_state\<lparr>error := True\<rparr>))
     = ValidationErrors [lit ''Interests too short (min 3 chars)'']"
    by code_simp
  with rejection_frame [of ascii_db example_env "example_form\<lparr>interests := lit ''AI''\<rparr>"
                           "example_state\<lparr>error := True\<rparr>"]
  show ?thesis by blast
qed

section \<open>Properties of the history store\<close>

lemma form_handling_history:
  "history (state (form_handling U e f s)) =
     history s @ appended [result (form_handling U e f s)]"
  by (simp add: form_handling_def get_career_advice_def Let_def
           split: decision.splits sum.splits)

lemma appended_Cons: "appended (out # outs) = appended [out] @ appended outs"
  by (cases out) simp_all

text \<open>
  A request that obtains advice ends with the append of the expected entry, and it
  sets the last request time; a request that obtains none appends nothing.
\<close>

lemma obtains_advice_Some:
  assumes "obtains_advice U e f s = Some t"
  shows "result (form_handling U e f s) = Appended (expected_entry U e f t)"
    and "state (form_handling U e f s)
           = s\<lparr>history := history s @ [expected_entry U e f t],
                last_request := Some (now_done e)\<rparr>"
proof -
  from assms have g: "throttle_guard s (now_check e) = Allow" and a: "all_filled f"
    and v: "validate_inputs U (cleaned_fields U f) = []"
    by (simp_all add: obtains_advice_def split: if_splits)
  from assms g a v have "api e = ResponseText t" and "t \<noteq> []"
    by (auto simp: obtains_advice_def split: api_result.splits if_splits)
  then have c: "get_career_advice (api e) s = (Inr t, s)"
    by (simp add: get_career_advice_def try_block_def)
  show "result (form_handling U e f s) = Appended (expected_entry U e f t)"
    by (simp add: form_handling_def Let_def g a v c expected_entry_def)
  show "state (form_handling U e f s)
           = s\<lparr>history := history s @ [expected_entry U e f t],
                last_request := Some (now_done e)\<rparr>"
    by (simp add: form_handling_def Let_def g a v c expected_entry_def)
qed

lemma obtains_advice_None:
  assumes "obtains_advice U e f s = None"
  shows "\<forall>new. result (form_handling U e f s) \<noteq> Appended new"
    and "state (form_handling U e f s) = s"
proof -
  have c: "get_career_advice (api e) s = (Inl AttributeError, s)"
    if "throttle_guard s (now_check e) = Allow" "all_filled f"
       "validate_inputs U (cleaned_fields U f) = []"
    using assms that
    by (auto simp: obtains_advice_def get_career_advice_def try_block_def
             split: api_result.splits if_splits)
  show "\<forall>new. result (form_handling U e f s) \<noteq> Appended new"
    using c by (auto simp: form_handling_def Let_def split: decision.splits)
  show "state (form_handling U e f s) = s"
    using c by (auto simp: form_handling_def Let_def split: decision.splits)
qed

lemma appended_result:
  "appended [result (form_handling U e f s)]
     = (case obtains_advice U e f s of None \<Rightarrow> [] | Some t \<Rightarrow> [expected_entry U e f t])"
proof (cases "obtains_advice U e f s")
  case None
  from obtains_advice_None(1) [OF None] show ?thesis
    by (cases "result (form_handling U e f s)") (simp_all add: None)
next
  case (Some t)
  from obtains_advice_Some(1) [OF Some] show ?thesis by (simp add: Some)
qed

lemma run_session_history:
  "run_session U reqs s = (outs, s') \<Longrightarrow> history s' = history s @ appended outs"
proof (induction reqs arbitrary: s outs s')
  case Nil
  then show ?case by simp
next
  case (Cons a reqs)
  obtain e f where a: "a = (e, f)" by (cases a)
  define r where "r = form_handling U e f s"
  obtain outs1 s1 where rec: "run_session U reqs (state r) = (outs1, s1)"
    by (cases "run_session U reqs (state r)")
  from Cons.prems a rec have o: "outs = result r # outs1" and s: "s' = s1"
    by (simp_all add: r_def Let_def)
  from Cons.IH [OF rec] have "history s1 = history (state r) @ appended outs1" .
  moreover have "history (state r) = history s @ appended [result r]"
    unfolding r_def by (rule form_handling_history)
  ultimately show ?case using o s appended_Cons [of "result r" outs1] by simp
qed

lemma run_session_appended:
  "run_session U reqs s = (outs, s') \<Longrightarrow> appended outs = successful_entries U reqs s"
proof (induction reqs arbitrary: s outs s')
  case Nil
  then show ?case by simp
next
  case (Cons a reqs)
  obtain e f where a: "a = (e, f)" by (cases a)
  define r where "r = form_handling U e f s"
  obtain outs1 s1 where rec: "run_session U reqs (state r) = (outs1, s1)"
    by (cases "run_session U reqs (state r)")
  from Cons.prems a rec have o: "outs = result r # outs1"
    by (simp_all add: r_def Let_def)
  from Cons.IH [OF rec] have "appended outs1 = successful_entries U reqs (state r)" .
  then show ?case
    using o appended_Cons [of "result r" outs1] appended_result [of U e f s]
    by (simp add: a r_def)
qed

lemma length_successful_entries:
  "length (successful_entries U reqs s) = successful_requests U reqs s"
proof (induction reqs arbitrary: s)
  case Nil
  show ?case by simp
next
  case (Cons a reqs)
  obtain e f where a: "a = (e, f)" by (cases a)
  from Cons.IH [of "state (form_handling U e f s)"] show ?case
    by (simp add: a split: option.splits)
qed

text \<open>
  Claim C7. A request that obtains advice (it passes the guard, the empty-field check
  and the validator, and the service answers with a text that is not empty) appends
  its entry at the end of the history; a request that obtains none leaves the history
  as it is. So after a session the history is what it was at the start, followed by
  the entries of the successful requests in the order of the requests. From an empty
  history it holds exactly as many entries as there were successful requests, the
  latest entry is the one appended last, and the reversed iteration gives the entries
  in reverse order of insertion. No submission changes or removes an entry: the
  history before it is an initial part of the history after it.
\<close>

theorem history_append_only:
  assumes "run_session U reqs s = (outs, s')"
  shows "history s' = history s @ successful_entries U reqs s
    \<and> length (successful_entries U reqs s) = successful_requests U reqs s
    \<and> (history s = [] \<longrightarrow>
          length (history s') = successful_requests U reqs s
          \<and> latest s' = (if successful_requests U reqs s = 0 then None
                          else Some (successful_entries U reqs s
                                       ! (successful_requests U reqs s - 1)))
          \<and> reversed_history s' = rev (successful_entries U reqs s))
    \<and> prefix (history s) (history s')
    \<and> (\<forall>e f s0 t. obtains_advice U e f s0 = Some t \<longrightarrow>
          history (state (form_handling U e f s0)) = history s0 @ [expected_entry U e f t])
    \<and> (\<forall>e f s0. obtains_advice U e f s0 = None \<longrightarrow>
          history (state (form_handling U e f s0)) = history s0)
    \<and> (\<forall>e f s0. prefix (history s0) (history (state (form_handling U e f s0))))"
proof -
  have h: "history s' = history s @ successful_entries U reqs s"
    using run_session_history [OF assms] run_session_appended [OF assms] by simp
  have n: "length (successful_entries U reqs s) = successful_requests U reqs s"
    by (rule length_successful_entries)
  have one: "\<forall>e f s0 t. obtains_advice U e f s0 = Some t \<longrightarrow>
          history (state (form_handling U e f s0)) = history s0 @ [expected_entry U e f t]"
    by (simp add: obtains_advice_Some(2))
  have none: "\<forall>e f s0. obtains_advice U e f s0 = None \<longrightarrow>
          history (state (form_handling U e f s0)) = history s0"
    by (simp add: obtains_advice_None(2))
  have p: "\<forall>e f s0. prefix (history s0) (history (state (form_handling U e f s0)))"
    using form_handling_history [of U] by (simp add: prefix_def)
  have l: "successful_entries U reqs s \<noteq> [] \<longrightarrow>
             last (successful_entries U reqs s)
               = successful_entries U reqs s ! (successful_requests U reqs s - 1)"
    by (simp add: last_conv_nth n)
  have z: "successful_entries U reqs s = [] \<longleftrightarrow> successful_requests U reqs s = 0"
    using n by (metis length_0_conv)
  have e: "history s = [] \<longrightarrow>
          length (history s') = successful_requests U reqs s
          \<and> latest s' = (if successful_requests U reqs s = 0 then None
                          else Some (successful_entries U reqs s
                                       ! (successful_requests U reqs s - 1)))
          \<and> reversed_history s' = rev (successful_entries U reqs s)"
    using h n l z by (simp add: latest_def reversed_history_def)
  have q: "prefix (history s) (history s')"
    using h by simp
  from h n e q one none p show ?thesis by blast
qed

theorem history_append_only_witness:
  "history example_state = []
   \<and> successful_requests ascii_db example_session example_state = 2
   \<and> obtains_advice ascii_db example_env example_form example_state = Some (lit ''## Path 1'')
   \<and> length (history (snd (run_session ascii_db example_session example_state))) = 2
   \<and> history (snd (run_session ascii_db example_session example_state))
       = successful_entries ascii_db example_session example_state"
proof -
  have a: "history example_state = []" by code_simp
  have b: "successful_requests ascii_db example_session example_state = 2"
    by code_simp
  have d: "obtains_advice ascii_db example_env example_form example_state
             = Some (lit ''## Path 1'')"
    by code_simp
  have c: "run_session ascii_db example_session example_state
       = (fst (run_session ascii_db example_session example_state),
          snd (run_session ascii_db example_session example_state))"
    by simp
  from history_append_only [OF c] a b d show ?thesis by simp
qed

section \<open>Properties of the PDF exporter\<close>

text \<open>
  What \<open>split\<close> returns is fixed by the text: no piece holds the separator, the
  pieces joined by the separator are the text, and there is one piece more than
  there are separators.
\<close>

lemma split_on_not_Nil: "split_on sep xs \<noteq> []"
  by (induction xs) (auto split: list.splits)

lemma split_on_pieces: "piece \<in> set (split_on sep xs) \<Longrightarrow> sep \<notin> set piece"
proof (induction xs arbitrary: piece)
  case Nil
  then show ?case by simp
next
  case (Cons c cs)
  show ?case
  proof (cases "c = sep")
    case True
    with Cons show ?thesis by auto
  next
    case False
    obtain p ps where s: "split_on sep cs = p # ps"
      using split_on_not_Nil [of sep cs] by (cases "split_on sep cs") auto
    with False Cons.prems have "piece = c # p \<or> piece \<in> set ps" by simp
    with False Cons.IH s show ?thesis by auto
  qed
qed

lemma join_with_split_on: "join_with sep (split_on sep xs) = xs"
proof (induction xs)
  case Nil
  show ?case by simp
next
  case (Cons c cs)
  obtain p ps where s: "split_on sep cs = p # ps"
    using split_on_not_Nil [of sep cs] by (cases "split_on sep cs") auto
  show ?case
  proof (cases "c = sep")
    case True
    with Cons s show ?thesis by simp
  next
    case False
    with Cons s show ?thesis by (cases ps) simp_all
  qed
qed

lemma length_split_on: "length (split_on sep xs) = Suc (count_list xs sep)"
proof (induction xs)
  case Nil
  show ?case by simp
next
  case (Cons c cs)
  obtain p ps where s: "split_on sep cs = p # ps"
    using split_on_not_Nil [of sep cs] by (cases "split_on sep cs") auto
  with Cons show ?case by auto
qed

lemma process_content_eq:
  "process_content R lines story =
     (if \<forall>line \<in> set lines. paragraph_ok R line (line_style line)
      then Some (story @ concat (map (\<lambda>line. [Paragraph line (line_style line), Spacer 1 3]) lines))
      else None)"
  by (induction lines arbitrary: story) (simp_all add: new_paragraph_def)

lemma paragraph_texts_lines:
  "paragraph_texts (concat (map (\<lambda>line. [Paragraph line (st line), Spacer w h]) lines)) = lines"
  by (induction lines) simp_all

text \<open>
  Claim C9. The lines of the content are its pieces between the line feeds: no line
  holds a line feed, the lines joined by line feeds are the content, and there is one
  line more than there are line feeds. When every paragraph can be constructed,
  \<open>generate_pdf\<close> hands to the document builder the title block followed by one
  paragraph and a spacer per line, and returns what the builder returns; a line is
  set in the heading style iff it begins with \<open>#\<close>, in the body style otherwise. The
  text blocks of that document are the title and the lines, so there are more of them
  than non-empty lines. When the construction of a paragraph or the builder raises,
  the result is \<open>None\<close>.
\<close>

theorem generate_pdf_blocks:
  "generate_pdf R content title =
     (if paragraph_ok R (lit ''<b>'' @ title @ lit ''</b>'') Title
         \<and> (\<forall>line \<in> set (split_on 10 content). paragraph_ok R line (line_style line))
      then doc_build R (story_layout content title) else None)
   \<and> paragraph_texts (story_layout content title)
       = (lit ''<b>'' @ title @ lit ''</b>'') # split_on 10 content
   \<and> (\<forall>line \<in> set (split_on 10 content). 10 \<notin> set line)
   \<and> join_with 10 (split_on 10 content) = content
   \<and> length (split_on 10 content) = Suc (count_list content 10)
   \<and> length (paragraph_texts (story_layout content title)) = Suc (Suc (count_list content 10))
   \<and> non_empty_lines content < length (paragraph_texts (story_layout content title))
   \<and> (\<forall>line. line_style line = (if line \<noteq> [] \<and> hd line = of_char CHR ''#'' then Heading2
                                 else BodyText))"
proof -
  have a: "generate_pdf R content title =
     (if paragraph_ok R (lit ''<b>'' @ title @ lit ''</b>'') Title
         \<and> (\<forall>line \<in> set (split_on 10 content). paragraph_ok R line (line_style line))
      then doc_build R (story_layout content title) else None)"
    by (simp add: generate_pdf_def new_paragraph_def process_content_eq story_layout_def)
  have b: "paragraph_texts (story_layout content title)
       = (lit ''<b>'' @ title @ lit ''</b>'') # split_on 10 content"
    by (simp add: story_layout_def paragraph_texts_lines)
  have s1: "\<forall>line \<in> set (split_on 10 content). 10 \<notin> set line"
    using split_on_pieces [of _ 10 content] by auto
  have s2: "join_with 10 (split_on 10 content) = content"
    by (rule join_with_split_on)
  have s3: "length (split_on 10 content) = Suc (count_list content 10)"
    by (rule length_split_on)
  from b s3 have s4: "length (paragraph_texts (story_layout content title))
                        = Suc (Suc (count_list content 10))"
    by simp
  have "non_empty_lines content \<le> length (split_on 10 content)"
    by (simp add: non_empty_lines_def)
  with b have c: "non_empty_lines content < length (paragraph_texts (story_layout content title))"
    by simp
  have d: "\<forall>line. line_style line = (if line \<noteq> [] \<and> hd line = of_char CHR ''#'' then Heading2
                                 else BodyText)"
    by (simp add: line_style_def split: list.splits)
  from a b s1 s2 s3 s4 c d show ?thesis by blast
qed

theorem generate_pdf_blocks_witness:
  "split_on 10 (lit ''## Path 1'' @ [10] @ lit ''Learn Python'' @ [10])
     = [lit ''## Path 1'', lit ''Learn Python'', []]
   \<and> non_empty_lines (lit ''## Path 1'' @ [10] @ lit ''Learn Python'' @ [10]) = 2
   \<and> list_all (\<lambda>line. paragraph_ok example_reportlab line (line_style line))
         (split_on 10 (lit ''## Path 1'' @ [10] @ lit ''Learn Python'' @ [10]))
   \<and> paragraph_texts (story_layout (lit ''## Path 1'' @ [10] @ lit ''Learn Python'' @ [10])
                         (lit ''Plan''))
       = [lit ''<b>Plan</b>'', lit ''## Path 1'', lit ''Learn Python'', []]
   \<and> generate_pdf example_reportlab (lit ''## Path 1'' @ [10] @ lit ''Learn Python'' @ [10])
         (lit ''Plan'')
       = Some [0, 0, 0, 0, 0, 0, 0, 0]
   \<and> generate_pdf (example_reportlab\<lparr>doc_build := (\<lambda>story. None)\<rparr>)
         (lit ''## Path 1'' @ [10] @ lit ''Learn Python'' @ [10]) (lit ''Plan'') = None"
proof -
  have a: "split_on 10 (lit ''## Path 1'' @ [10] @ lit ''Learn Python'' @ [10])
             = [lit ''## Path 1'', lit ''Learn Python'', []]"
    by code_simp
  have n: "non_empty_lines (lit ''## Path 1'' @ [10] @ lit ''Learn Python'' @ [10]) = 2"
    by code_simp
  have b: "\<forall>line. paragraph_ok example_reportlab line (line_style line)"
    by (simp add: example_reportlab_def)
  have c: "doc_build example_reportlab
             (story_layout (lit ''## Path 1'' @ [10] @ lit ''Learn Python'' @ [10]) (lit ''Plan''))
           = Some [0, 0, 0, 0, 0, 0, 0, 0]"
    by code_simp
  have t: "lit ''<b>'' @ lit ''Plan'' @ lit ''</b>'' = lit ''<b>Plan</b>''"
    by (simp add: lit_def)
  from generate_pdf_blocks [of example_reportlab
                               "lit ''## Path 1'' @ [10] @ lit ''Learn Python'' @ [10]" "lit ''Plan''"]
       generate_pdf_blocks [of "example_reportlab\<lparr>doc_build := (\<lambda>story. None)\<rparr>"
                               "lit ''## Path 1'' @ [10] @ lit ''Learn Python'' @ [10]" "lit ''Plan''"]
       a n b c t
  show ?thesis by (simp add: example_reportlab_def)
qed

section \<open>Properties of the JSON exporter\<close>

lemma hex_value_digit: "d < 16 \<Longrightarrow> hex_value (hex_digit d) = Some d"
  by (simp add: hex_value_def hex_digit_def)

lemma length_hex4: "length (hex4 i) = 4"
  by (simp add: hex4_def)

lemma decode_hex4:
  assumes "c < 32"
  shows "decode_uXXXX (hex4 c @ r) = Some c"
proof -
  from assms have a: "c div 4096 = 0" and b: "c div 256 = 0" by simp_all
  from assms have "c div 16 < 2" by simp
  then have g: "c div 16 mod 16 = c div 16" by simp
  have d: "c div 16 mod 16 < 16" and e: "c mod 16 < 16" by simp_all
  have f: "c div 16 mod 16 * 16 + c mod 16 = c" unfolding g by simp
  have z: "hex_value (hex_digit 0) = Some 0" by (simp add: hex_value_digit)
  have h: "hex4 c @ r = hex_digit 0 # hex_digit 0 # hex_digit (c div 16 mod 16)
                          # hex_digit (c mod 16) # r"
    by (simp add: hex4_def a b)
  have "decode_uXXXX (hex4 c @ r)
          = Some (((0 * 16 + 0) * 16 + c div 16 mod 16) * 16 + c mod 16)"
    unfolding h decode_uXXXX_def
    by (simp only: list.case z hex_value_digit [OF d] hex_value_digit [OF e]
                   prod.case option.case)
  with f show ?thesis by simp
qed

lemma scanstring_plain:
  "32 \<le> c \<Longrightarrow> c \<noteq> 34 \<Longrightarrow> c \<noteq> 92 \<Longrightarrow> scanstring (c # r) = prepend c (scanstring r)"
  by simp

lemma scanstring_backslash:
  "backslash e = Some ch \<Longrightarrow> e \<noteq> 117 \<Longrightarrow> scanstring (92 # e # r) = prepend ch (scanstring r)"
  by simp

lemma scanstring_unicode:
  "decode_uXXXX cs = Some uni \<Longrightarrow> uni < 55296
     \<Longrightarrow> scanstring (92 # 117 # cs) = prepend uni (scanstring (drop 4 cs))"
  by simp

lemma scanstring_escape: "scanstring (escape_char c @ r) = prepend c (scanstring r)"
proof -
  consider "c = 34" | "c = 92" | "c = 10" | "c = 13" | "c = 9" | "c = 8" | "c = 12"
    | "c < 32" "c \<noteq> 8" "c \<noteq> 9" "c \<noteq> 10" "c \<noteq> 12" "c \<noteq> 13"
    | "32 \<le> c" "c \<noteq> 34" "c \<noteq> 92"
    by linarith
  then show ?thesis
  proof cases
    case 1
    have "backslash 34 = Some 34" by (simp add: backslash_def)
    from scanstring_backslash [OF this] 1 show ?thesis by (simp add: escape_char_def)
  next
    case 2
    have "backslash 92 = Some 92" by (simp add: backslash_def)
    from scanstring_backslash [OF this] 2 show ?thesis by (simp add: escape_char_def)
  next
    case 3
    have "backslash 110 = Some 10" by (simp add: backslash_def)
    from scanstring_backslash [OF this] 3 show ?thesis by (simp add: escape_char_def)
  next
    case 4
    have "backslash 114 = Some 13" by (simp add: backslash_def)
    from scanstring_backslash [OF this] 4 show ?thesis by (simp add: escape_char_def)
  next
    case 5
    have "backslash 116 = Some 9" by (simp add: backslash_def)
    from scanstring_backslash [OF this] 5 show ?thesis by (simp add: escape_char_def)
  next
    case 6
    have "backslash 98 = Some 8" by (simp add: backslash_def)
    from scanstring_backslash [OF this] 6 show ?thesis by (simp add: escape_char_def)
  next
    case 7
    have "backslash 102 = Some 12" by (simp add: backslash_def)
    from scanstring_backslash [OF this] 7 show ?thesis by (simp add: escape_char_def)
  next
    case 8
    then have e: "escape_char c @ r = 92 # 117 # (hex4 c @ r)"
      by (simp add: escape_char_def)
    from 8 have "c < 55296" by simp
    from scanstring_unicode [OF decode_hex4 [OF 8(1)] this, of r]
    show ?thesis unfolding e by (simp add: length_hex4)
  next
    case 9
    then have "escape_char c = [c]" by (simp add: escape_char_def)
    with scanstring_plain [OF 9] show ?thesis by simp
  qed
qed

lemma scanstring_body: "scanstring (encode_string_body s @ rest) = Some (s, rest)"
proof (induction s)
  case Nil
  show ?case by (simp add: encode_string_body_def)
next
  case (Cons c s)
  have "encode_string_body (c # s) @ rest = escape_char c @ (encode_string_body s @ rest)"
    by (simp add: encode_string_body_def)
  then show ?case by (simp add: scanstring_escape Cons.IH prepend_def)
qed

lemma skip_ws_newline_indent: "skip_ws (newline_indent level @ s) = skip_ws s"
proof -
  have "skip_ws (replicate n 32 @ s) = skip_ws s" for n
    by (induction n) (simp_all add: skip_ws_def is_ws_def)
  then show ?thesis by (simp add: newline_indent_def skip_ws_def is_ws_def)
qed

lemma skip_ws_space: "skip_ws (32 # s) = skip_ws s"
  by (simp add: skip_ws_def is_ws_def)

lemma skip_ws_no_ws: "\<not> is_ws c \<Longrightarrow> skip_ws (c # s) = c # s"
  by (simp add: skip_ws_def)

lemma skip_ws_Nil: "skip_ws [] = []"
  by (simp add: skip_ws_def)

text \<open>The text of a value starts with a quote, a brace or a bracket.\<close>

lemma encode_head: "\<exists>c r. encode level v = c # r \<and> \<not> is_ws c"
  by (cases v) (simp_all add: encode_basestring_def is_ws_def)

lemma skip_ws_encode: "skip_ws (encode level v @ s) = encode level v @ s"
proof -
  obtain c r where "encode level v = c # r" and "\<not> is_ws c"
    using encode_head by blast
  then show ?thesis by (simp add: skip_ws_no_ws)
qed

lemma encode_items_head:
  "kvs \<noteq> [] \<Longrightarrow> encode_items level kvs = 34 # tl (encode_items level kvs)"
proof (cases kvs)
  case Nil
  assume "kvs \<noteq> []"
  with Nil show ?thesis by simp
next
  case (Cons p kvs')
  obtain k v where "p = (k, v)" by (cases p)
  with Cons show ?thesis by (simp add: encode_basestring_def)
qed

lemma dict_set_fresh: "k \<notin> fst ` set d \<Longrightarrow> dict_set d k v = d @ [(k, v)]"
  by (induction d) auto

lemma dict_fold_distinct:
  "distinct (map fst (d @ pairs))
     \<Longrightarrow> foldl (\<lambda>d (k, v). dict_set d k v) d pairs = d @ pairs"
proof (induction pairs arbitrary: d)
  case Nil
  then show ?case by simp
next
  case (Cons p pairs)
  obtain k v where p: "p = (k, v)" by (cases p)
  from Cons.prems p have "k \<notin> fst ` set d" by auto
  then have s: "dict_set d k v = d @ [(k, v)]" by (rule dict_set_fresh)
  from Cons.prems p have "distinct (map fst ((d @ [(k, v)]) @ pairs))" by simp
  from Cons.IH [OF this] show ?case by (simp add: p s)
qed

lemma dict_of_pairs_distinct: "distinct (map fst pairs) \<Longrightarrow> dict_of_pairs pairs = pairs"
  using dict_fold_distinct [of "[]" pairs] by (simp add: dict_of_pairs_def)

text \<open>One turn of each loop of the decoder, on the text that the encoder writes.\<close>

lemma parse_value_string:
  "parse_value (Suc n) (encode_basestring s @ rest) = Some (JString s, rest)"
  by (simp add: encode_basestring_def scanstring_body)

lemma parse_value_empty_object: "parse_value (Suc n) ([123, 125] @ rest) = Some (JObject [], rest)"
  by (simp add: skip_ws_def is_ws_def)

lemma parse_value_empty_array: "parse_value (Suc n) ([91, 93] @ rest) = Some (JArray [], rest)"
  by (simp add: skip_ws_def is_ws_def)

lemma parse_value_object:
  assumes "parse_pairs n s = Some (pairs, rest)"
  shows "parse_value (Suc n) (123 # newline_indent level @ 34 # s)
           = Some (JObject (dict_of_pairs pairs), rest)"
proof -
  have "skip_ws (newline_indent level @ 34 # s) = 34 # s"
    by (simp add: skip_ws_newline_indent skip_ws_no_ws is_ws_def)
  with assms show ?thesis by simp
qed

lemma parse_value_array:
  assumes "parse_values n (encode l v @ s) = Some (vs, rest)"
  shows "parse_value (Suc n) (91 # newline_indent level @ encode l v @ s)
           = Some (JArray vs, rest)"
proof -
  obtain c r where e: "encode l v = c # r" and w: "\<not> is_ws c"
    using encode_head by blast
  from e have n: "c \<noteq> 93" by (cases v) (auto simp: encode_basestring_def split: if_splits)
  have "skip_ws (newline_indent level @ encode l v @ s) = c # r @ s"
    using w by (simp add: skip_ws_newline_indent e skip_ws_no_ws)
  with assms n e show ?thesis by simp
qed

lemma parse_pairs_last:
  assumes "parse_value n (encode level v @ newline_indent l' @ 125 # rest)
             = Some (v, newline_indent l' @ 125 # rest)"
  shows "parse_pairs (Suc n)
           (encode_string_body k @ [58, 32] @ encode level v @ newline_indent l' @ 125 # rest)
           = Some ([(k, v)], rest)"
proof -
  have a: "scanstring (encode_string_body k @ [58, 32] @ encode level v @ newline_indent l' @ 125 # rest)
             = Some (k, 58 # 32 # encode level v @ newline_indent l' @ 125 # rest)"
    using scanstring_body [of k "[58, 32] @ encode level v @ newline_indent l' @ 125 # rest"]
    by simp
  have b: "skip_ws (58 # 32 # encode level v @ newline_indent l' @ 125 # rest)
             = 58 # 32 # encode level v @ newline_indent l' @ 125 # rest"
    by (simp add: skip_ws_no_ws is_ws_def)
  have c: "skip_ws (32 # encode level v @ newline_indent l' @ 125 # rest)
             = encode level v @ newline_indent l' @ 125 # rest"
    by (simp add: skip_ws_space skip_ws_encode)
  have d: "skip_ws (newline_indent l' @ 125 # rest) = 125 # rest"
    by (simp add: skip_ws_newline_indent skip_ws_no_ws is_ws_def)
  show ?thesis
    by (simp add: a b c d assms del: append.simps)
qed

lemma parse_pairs_more:
  assumes "parse_value n (encode level v @ 44 # newline_indent level @ 34 # s)
             = Some (v, 44 # newline_indent level @ 34 # s)"
    and "parse_pairs n s = Some (pairs, rest)"
  shows "parse_pairs (Suc n)
           (encode_string_body k @ [58, 32] @ encode level v @ 44 # newline_indent level @ 34 # s)
           = Some ((k, v) # pairs, rest)"
proof -
  have a: "scanstring (encode_string_body k @ [58, 32] @ encode level v
                         @ 44 # newline_indent level @ 34 # s)
             = Some (k, 58 # 32 # encode level v @ 44 # newline_indent level @ 34 # s)"
    using scanstring_body [of k "[58, 32] @ encode level v @ 44 # newline_indent level @ 34 # s"]
    by simp
  have b: "skip_ws (58 # 32 # encode level v @ 44 # newline_indent level @ 34 # s)
             = 58 # 32 # encode level v @ 44 # newline_indent level @ 34 # s"
    by (simp add: skip_ws_no_ws is_ws_def)
  have c: "skip_ws (32 # encode level v @ 44 # newline_indent level @ 34 # s)
             = encode level v @ 44 # newline_indent level @ 34 # s"
    by (simp add: skip_ws_space skip_ws_encode)
  have d: "skip_ws (44 # newline_indent level @ 34 # s) = 44 # newline_indent level @ 34 # s"
    by (simp add: skip_ws_no_ws is_ws_def)
  have e: "skip_ws (newline_indent level @ 34 # s) = 34 # s"
    by (simp add: skip_ws_newline_indent skip_ws_no_ws is_ws_def)
  show ?thesis
    by (simp add: a b c d e assms del: append.simps)
qed

lemma parse_values_last:
  assumes "parse_value n (encode level v @ newline_indent l' @ 93 # rest)
             = Some (v, newline_indent l' @ 93 # rest)"
  shows "parse_values (Suc n) (encode level v @ newline_indent l' @ 93 # rest)
           = Some ([v], rest)"
proof -
  have d: "skip_ws (newline_indent l' @ 93 # rest) = 93 # rest"
    by (simp add: skip_ws_newline_indent skip_ws_no_ws is_ws_def)
  show ?thesis by (simp add: d assms del: append.simps)
qed

lemma parse_values_more:
  assumes "parse_value n (encode level v @ 44 # newline_indent level @ encode level w @ s)
             = Some (v, 44 # newline_indent level @ encode level w @ s)"
    and "parse_values n (encode level w @ s) = Some (vs, rest)"
  shows "parse_values (Suc n) (encode level v @ 44 # newline_indent level @ encode level w @ s)
           = Some (v # vs, rest)"
proof -
  have d: "skip_ws (44 # newline_indent level @ encode level w @ s)
             = 44 # newline_indent level @ encode level w @ s"
    by (simp add: skip_ws_no_ws is_ws_def)
  have e: "skip_ws (newline_indent level @ encode level w @ s) = encode level w @ s"
    by (simp add: skip_ws_newline_indent skip_ws_encode)
  show ?thesis by (simp add: d e assms del: append.simps)
qed

text \<open>
  The decoder reads back what the encoder wrote, and stops where the value ends,
  whenever it is allowed as many nested calls as the value needs.
\<close>

lemma decode_encode:
  "dict_keys_distinct v \<Longrightarrow> nesting v \<le> n
     \<Longrightarrow> parse_value n (encode level v @ rest) = Some (v, rest)"
  "kvs \<noteq> [] \<Longrightarrow> dict_values_distinct kvs \<Longrightarrow> nesting_items kvs \<le> n
     \<Longrightarrow> parse_pairs n (tl (encode_items level kvs) @ newline_indent l' @ 125 # rest)
           = Some (kvs, rest)"
  "vs \<noteq> [] \<Longrightarrow> list_values_distinct vs \<Longrightarrow> nesting_elements vs \<le> n
     \<Longrightarrow> parse_values n (encode_elements level vs @ newline_indent l' @ 93 # rest)
           = Some (vs, rest)"
proof (induction v and kvs and vs arbitrary: n level rest and n level l' rest and n level l' rest
       rule: nesting_nesting_items_nesting_elements.induct)
  case (1 s)
  then obtain m where "n = Suc m" by (cases n) auto
  then show ?case by (simp add: parse_value_string del: parse_value.simps)
next
  case (2 kvs)
  from "2.prems" obtain m where n: "n = Suc m" and m: "nesting_items kvs \<le> m"
    by (cases n) auto
  show ?case
  proof (cases "kvs = []")
    case True
    then show ?thesis
      using parse_value_empty_object [of m rest] by (simp add: n del: parse_value.simps)
  next
    case False
    from "2.prems" have d: "distinct (map fst kvs)" and w: "dict_values_distinct kvs" by simp_all
    have p: "parse_pairs m (tl (encode_items (Suc level) kvs) @ newline_indent level @ 125 # rest)
               = Some (kvs, rest)"
      using False w m by (rule "2.IH")
    have "encode level (JObject kvs) @ rest
            = 123 # newline_indent (Suc level)
                @ 34 # (tl (encode_items (Suc level) kvs) @ newline_indent level @ 125 # rest)"
      using False encode_items_head [OF False, of "Suc level"] by simp
    then show ?thesis
      using parse_value_object [OF p, of "Suc level"]
      by (simp add: n dict_of_pairs_distinct [OF d] del: parse_value.simps)
  qed
next
  case (3 vs)
  from "3.prems" obtain m where n: "n = Suc m" and m: "nesting_elements vs \<le> m"
    by (cases n) auto
  show ?case
  proof (cases vs)
    case Nil
    then show ?thesis
      using parse_value_empty_array [of m rest] by (simp add: n del: parse_value.simps)
  next
    case (Cons w ws)
    then have ne: "vs \<noteq> []" by simp
    from "3.prems" have d: "list_values_distinct vs" by simp
    have p: "parse_values m (encode_elements (Suc level) vs @ newline_indent level @ 93 # rest)
               = Some (vs, rest)"
      using ne d m by (rule "3.IH")
    obtain t where t: "encode_elements (Suc level) vs = encode (Suc level) w @ t"
      using Cons by simp
    have "encode level (JArray vs) @ rest
            = 91 # newline_indent (Suc level)
                @ encode (Suc level) w @ (t @ newline_indent level @ 93 # rest)"
      using ne t by simp
    then show ?thesis
      using parse_value_array [of m "Suc level" w "t @ newline_indent level @ 93 # rest" vs rest
                                  "Suc level"] p t
      by (simp add: n del: parse_value.simps)
  qed
next
  case 4
  then show ?case by simp
next
  case (5 k v kvs)
  from "5.prems" obtain m where n: "n = Suc m" and mv: "nesting v \<le> m"
    and mk: "nesting_items kvs \<le> m"
    by (cases n) auto
  from "5.prems" have dv: "dict_keys_distinct v" and dk: "dict_values_distinct kvs" by simp_all
  show ?case
  proof (cases "kvs = []")
    case True
    have "parse_value m (encode level v @ newline_indent l' @ 125 # rest)
            = Some (v, newline_indent l' @ 125 # rest)"
      using dv mv by (rule "5.IH"(1))
    from parse_pairs_last [OF this, of k] show ?thesis
      by (simp add: True n encode_basestring_def del: parse_pairs.simps)
  next
    case False
    define s where "s = tl (encode_items level kvs) @ newline_indent l' @ 125 # rest"
    have a: "parse_value m (encode level v @ 44 # newline_indent level @ 34 # s)
               = Some (v, 44 # newline_indent level @ 34 # s)"
      using dv mv by (rule "5.IH"(1))
    have b: "parse_pairs m s = Some (kvs, rest)"
      unfolding s_def using False dk mk by (rule "5.IH"(2))
    have "tl (encode_items level ((k, v) # kvs)) @ newline_indent l' @ 125 # rest
            = encode_string_body k @ [58, 32] @ encode level v
                @ 44 # newline_indent level @ 34 # s"
      using False encode_items_head [OF False, of level]
      by (simp add: s_def encode_basestring_def)
    with parse_pairs_more [OF a b, of k] show ?thesis
      by (simp add: n del: parse_pairs.simps)
  qed
next
  case 6
  then show ?case by simp
next
  case (7 v vs)
  from "7.prems" obtain m where n: "n = Suc m" and mv: "nesting v \<le> m"
    and mk: "nesting_elements vs \<le> m"
    by (cases n) auto
  from "7.prems" have dv: "dict_keys_distinct v" and dk: "list_values_distinct vs" by simp_all
  show ?case
  proof (cases vs)
    case Nil
    have "parse_value m (encode level v @ newline_indent l' @ 93 # rest)
            = Some (v, newline_indent l' @ 93 # rest)"
      using dv mv by (rule "7.IH"(1))
    from parse_values_last [OF this] show ?thesis
      by (simp add: Nil n del: parse_values.simps)
  next
    case (Cons w ws)
    then have ne: "vs \<noteq> []" by simp
    obtain t where t: "encode_elements level vs = encode level w @ t"
      using Cons by simp
    define s where "s = t @ newline_indent l' @ 93 # rest"
    have a: "parse_value m (encode level v @ 44 # newline_indent level @ encode level w @ s)
               = Some (v, 44 # newline_indent level @ encode level w @ s)"
      using dv mv by (rule "7.IH"(1))
    have "parse_values m (encode_elements level vs @ newline_indent l' @ 93 # rest)
            = Some (vs, rest)"
      using ne dk mk by (rule "7.IH"(2))
    then have b: "parse_values m (encode level w @ s) = Some (vs, rest)"
      by (simp add: t s_def)
    have "encode_elements level (v # vs) @ newline_indent l' @ 93 # rest
            = encode level v @ 44 # newline_indent level @ encode level w @ s"
      using ne by (simp add: t s_def)
    with parse_values_more [OF a b] show ?thesis
      by (simp add: n del: parse_values.simps)
  qed
qed

lemma nesting_le_length:
  "nesting v < length (encode level v)"
  "nesting_items kvs \<le> length (encode_items level kvs)"
  "nesting_elements vs \<le> length (encode_elements level vs)"
proof (induction v and kvs and vs arbitrary: level and level and level
       rule: nesting_nesting_items_nesting_elements.induct)
  case (1 s)
  show ?case by (simp add: encode_basestring_def encode_string_body_def)
next
  case (2 kvs)
  from "2.IH" [of "Suc level"] show ?case by simp
next
  case (3 vs)
  from "3.IH" [of "Suc level"] show ?case by simp
next
  case 4
  show ?case by simp
next
  case (5 k v kvs)
  from "5.IH"(1) [of level] "5.IH"(2) [of level] show ?case
    by (simp add: encode_basestring_def)
next
  case 6
  show ?case by simp
next
  case (7 v vs)
  from "7.IH"(1) [of level] "7.IH"(2) [of level] show ?case by simp
qed

text \<open>Decoding the export of a value gives the value back.\<close>

lemma json_roundtrip:
  assumes "dict_keys_distinct v"
  shows "json_loads (export_json v) = Some v"
proof -
  have "nesting v \<le> Suc (length (encode 0 v))"
    using nesting_le_length(1) [of v 0] by simp
  with assms have "parse_value (Suc (length (encode 0 v))) (encode 0 v @ []) = Some (v, [])"
    by (rule decode_encode(1))
  moreover have "skip_ws (encode 0 v) = encode 0 v"
    using skip_ws_encode [of 0 v "[]"] by simp
  ultimately show ?thesis
    by (simp add: json_loads_def export_json_def skip_ws_Nil)
qed

lemma string_values_distinct:
  "dict_values_distinct (map (\<lambda>(k, v). (k, JString v)) kw)"
  by (induction kw) auto

lemma string_values_keys: "map fst (map (\<lambda>(k, v). (k, JString v)) kw) = map fst kw"
  by (induction kw) auto

lemma entry_value_distinct:
  assumes "distinct (map fst (inputs en))"
  shows "dict_keys_distinct (entry_value en)"
proof -
  have "distinct (map fst (map (\<lambda>(k, v). (k, JString v)) (inputs en)))"
    using assms by (simp only: string_values_keys)
  then show ?thesis
    by (simp add: entry_value_def string_values_distinct lit_def del: map_map)
qed

text \<open>The text of a dictionary of four fields, the third of any kind.\<close>

lemma encode_four_fields:
  "encode 0 (JObject [(k1, JString a), (k2, JString b), (k3, w), (k4, JString c)])
     = [123]
       @ newline_indent 1 @ encode_basestring k1 @ [58, 32] @ encode_basestring a @ [44]
       @ newline_indent 1 @ encode_basestring k2 @ [58, 32] @ encode_basestring b @ [44]
       @ newline_indent 1 @ encode_basestring k3 @ [58, 32] @ encode 1 w @ [44]
       @ newline_indent 1 @ encode_basestring k4 @ [58, 32] @ encode_basestring c
       @ newline_indent 0 @ [125]"
  by simp

lemma entry_value_inj:
  assumes "entry_value a = entry_value b"
  shows "a = b"
proof -
  have "inj (\<lambda>(k :: str, v). (k, JString v))"
    by (auto simp: inj_on_def)
  then have "inj (map (\<lambda>(k :: str, v). (k, JString v)))" by (rule inj_mapI)
  with assms have "inputs a = inputs b"
    by (simp add: entry_value_def inj_eq)
  with assms show ?thesis by (simp add: entry_value_def)
qed

text \<open>The entries that the form handling appends have the five field names as their keys.\<close>

lemma appended_inputs_distinct:
  assumes "result (form_handling U e f s) = Appended new"
  shows "distinct (map fst (inputs new))"
proof -
  from assms have "inputs new = cleaned_fields U f"
    by (auto simp: form_handling_def Let_def
             split: decision.splits if_splits prod.splits sum.splits)
  then show ?thesis by (simp add: cleaned_fields_def lit_def)
qed

lemma history_roundtrip:
  assumes "\<forall>en \<in> set h. distinct (map fst (inputs en))"
  shows "json_loads (export_json (history_value h)) = Some (history_value h)"
proof -
  from assms have "list_values_distinct (map entry_value h)"
    by (induction h) (simp_all add: entry_value_distinct)
  then show ?thesis by (simp add: history_value_def json_roundtrip)
qed

text \<open>A string that needs no escape is written as it is between double quotes.\<close>

lemma encode_basestring_plain:
  assumes "\<forall>c \<in> set s. 32 \<le> c \<and> c \<noteq> 34 \<and> c \<noteq> 92"
  shows "encode_basestring s = quoted s"
proof -
  from assms have "concat (map escape_char s) = s"
    by (induction s) (simp_all add: escape_char_def)
  then show ?thesis
    by (simp add: encode_basestring_def encode_string_body_def quoted_def)
qed

lemma encode_basestring_keys:
  "encode_basestring (lit ''name'') = quoted (lit ''name'')"
  "encode_basestring (lit ''timestamp'') = quoted (lit ''timestamp'')"
  "encode_basestring (lit ''inputs'') = quoted (lit ''inputs'')"
  "encode_basestring (lit ''advice'') = quoted (lit ''advice'')"
  by (rule encode_basestring_plain, simp add: lit_def)+

text \<open>The text of the fields of \<open>inputs\<close>, and of the whole entry.\<close>

lemma encode_items_inputs:
  "kw \<noteq> [] \<Longrightarrow>
     [32, 32, 32, 32] @ encode_items 2 (map (\<lambda>(k, v). (k, JString v)) kw)
       = inputs_text encode_basestring kw"
proof (induction encode_basestring kw rule: inputs_text.induct)
  case 1
  then show ?case by simp
next
  case (2 k v)
  show ?case by simp
next
  case (3 k v nxt kw)
  have "newline_indent 2 = [10, 32, 32, 32, 32]"
    by (simp add: newline_indent_def numeral_eq_Suc)
  with 3 show ?case by simp
qed

lemma encode_inputs:
  "encode 1 (JObject (map (\<lambda>(k, v). (k, JString v)) kw))
     = (if kw = [] then [123, 125]
        else [123, 10] @ inputs_text encode_basestring kw @ [10, 32, 32, 125])"
proof (cases "kw = []")
  case True
  then show ?thesis by simp
next
  case False
  have a: "newline_indent 2 = [10, 32, 32, 32, 32]"
    by (simp add: newline_indent_def numeral_eq_Suc)
  have b: "newline_indent 1 = [10, 32, 32]"
    by (simp add: newline_indent_def numeral_eq_Suc)
  have "encode 1 (JObject (map (\<lambda>(k, v). (k, JString v)) kw))
          = [123, 10] @ ([32, 32, 32, 32] @ encode_items 2 (map (\<lambda>(k, v). (k, JString v)) kw))
            @ [10, 32, 32, 125]"
    using False a b by (simp add: numeral_2_eq_2)
  then show ?thesis
    using False by (simp only: encode_items_inputs [OF False] if_False)
qed

lemma export_entry_text: "export_json (entry_value en) = entry_text encode_basestring en"
proof -
  have b: "newline_indent 1 = [10, 32, 32]"
    by (simp add: newline_indent_def numeral_eq_Suc)
  have z: "newline_indent 0 = [10]"
    by (simp add: newline_indent_def)
  show ?thesis
    unfolding export_json_def entry_value_def encode_four_fields entry_text_def
              encode_inputs b z
    by simp
qed

lemma inputs_text_cong:
  assumes "\<forall>(k, v) \<in> set kw. q k = q' k \<and> q v = q' v"
  shows "inputs_text q kw = inputs_text q' kw"
  using assms by (induction q kw rule: inputs_text.induct) simp_all

lemma export_plain_entry:
  assumes "\<forall>c \<in> set (entry_codepoints en). 32 \<le> c \<and> c \<noteq> 34 \<and> c \<noteq> 92"
  shows "export_json (entry_value en) = entry_text quoted en"
proof -
  from assms have n: "encode_basestring (name en) = quoted (name en)"
    and t: "encode_basestring (timestamp en) = quoted (timestamp en)"
    and a: "encode_basestring (advice en) = quoted (advice en)"
    by (auto intro!: encode_basestring_plain simp: entry_codepoints_def)
  have "\<forall>(k, v) \<in> set (inputs en).
          encode_basestring k = quoted k \<and> encode_basestring v = quoted v"
    using assms by (force intro!: encode_basestring_plain simp: entry_codepoints_def)
  then have i: "inputs_text encode_basestring (inputs en) = inputs_text quoted (inputs en)"
    by (rule inputs_text_cong)
  show ?thesis
    by (simp add: export_entry_text entry_text_def n t a i encode_basestring_keys)
qed

text \<open>
  Claim C8. For an entry (whose \<open>inputs\<close> are a dictionary: no key twice), decoding
  the exported text gives back the value of the entry, and two entries with the same
  value are the same entry: every field is reproduced. The exported text is the text
  written out in \<open>entry_text\<close>: the fields in the order \<open>name\<close>, \<open>timestamp\<close>,
  \<open>inputs\<close>, \<open>advice\<close>, each on a line of its own indented by two spaces, the fields
  of \<open>inputs\<close> in their own order indented by four. A string in which no code point is
  a control character, a double quote or a backslash is written as it is between
  double quotes, whatever code points outside ASCII it holds; when all strings of the
  entry are such, the export is the written-out text with every string as it is. A
  line feed, a double quote and a backslash are written escaped.
\<close>

theorem export_json_roundtrip:
  assumes "distinct (map fst (inputs en))"
  shows "json_loads (export_json (entry_value en)) = Some (entry_value en)
    \<and> (\<forall>en'. entry_value en' = entry_value en \<longrightarrow> en' = en)
    \<and> export_json (entry_value en) = entry_text encode_basestring en
    \<and> (\<forall>s. (\<forall>c \<in> set s. 32 \<le> c \<and> c \<noteq> 34 \<and> c \<noteq> 92)
           \<longrightarrow> encode_basestring s = [34] @ s @ [34])
    \<and> (\<forall>s. (\<forall>c \<in> set s. 127 < c) \<longrightarrow> encode_basestring s = [34] @ s @ [34])
    \<and> ((\<forall>c \<in> set (entry_codepoints en). 32 \<le> c \<and> c \<noteq> 34 \<and> c \<noteq> 92)
           \<longrightarrow> export_json (entry_value en) = entry_text quoted en)
    \<and> encode_basestring [10] = [34, 92, 110, 34]
    \<and> encode_basestring [34] = [34, 92, 34, 34]
    \<and> encode_basestring [92] = [34, 92, 92, 34]"
proof -
  have a: "json_loads (export_json (entry_value en)) = Some (entry_value en)"
    using assms by (intro json_roundtrip entry_value_distinct)
  have b: "\<forall>en'. entry_value en' = entry_value en \<longrightarrow> en' = en"
    using entry_value_inj by blast
  have c: "export_json (entry_value en) = entry_text encode_basestring en"
    by (rule export_entry_text)
  have d: "\<forall>s. (\<forall>c \<in> set s. 32 \<le> c \<and> c \<noteq> 34 \<and> c \<noteq> 92)
           \<longrightarrow> encode_basestring s = [34] @ s @ [34]"
    using encode_basestring_plain by (simp add: quoted_def)
  have e: "\<forall>s. (\<forall>c \<in> set s. 127 < c) \<longrightarrow> encode_basestring s = [34] @ s @ [34]"
  proof (intro allI impI)
    fix s :: str
    assume "\<forall>c \<in> set s. 127 < c"
    then have "\<forall>c \<in> set s. 32 \<le> c \<and> c \<noteq> 34 \<and> c \<noteq> 92" by auto
    then show "encode_basestring s = [34] @ s @ [34]"
      using encode_basestring_plain by (simp add: quoted_def)
  qed
  have f: "(\<forall>c \<in> set (entry_codepoints en). 32 \<le> c \<and> c \<noteq> 34 \<and> c \<noteq> 92)
           \<longrightarrow> export_json (entry_value en) = entry_text quoted en"
    using export_plain_entry by blast
  have g: "encode_basestring [10] = [34, 92, 110, 34]"
    "encode_basestring [34] = [34, 92, 34, 34]"
    "encode_basestring [92] = [34, 92, 92, 34]"
    by (simp_all add: encode_basestring_def encode_string_body_def escape_char_def)
  from a b c d e f g show ?thesis by blast
qed

theorem export_json_roundtrip_witness:
  "distinct (map fst (inputs example_entry))
   \<and> json_loads (export_json (entry_value example_entry)) = Some (entry_value example_entry)
   \<and> distinct (map fst (inputs example_plain_entry))
   \<and> list_all (\<lambda>c. 32 \<le> c \<and> c \<noteq> 34 \<and> c \<noteq> 92) (entry_codepoints example_plain_entry)
   \<and> export_json (entry_value example_plain_entry)
       = [123, 10, 32, 32, 34, 110, 97, 109, 101, 34, 58, 32, 34, 90, 111, 233, 34,
          44, 10, 32, 32, 34, 116, 105, 109, 101, 115, 116, 97, 109, 112, 34, 58,
          32, 34, 48, 51, 32, 78, 111, 118, 34, 44, 10, 32, 32, 34, 105, 110, 112,
          117, 116, 115, 34, 58, 32, 123, 10, 32, 32, 32, 32, 34, 103, 111, 97, 108,
          115, 34, 58, 32, 34, 65, 73, 34, 44, 10, 32, 32, 32, 32, 34, 115, 107,
          105, 108, 108, 115, 34, 58, 32, 34, 128013, 34, 10, 32, 32, 125, 44, 10,
          32, 32, 34, 97, 100, 118, 105, 99, 101, 34, 58, 32, 34, 128640, 32, 71,
          111, 34, 10, 125]"
proof -
  have a: "distinct (map fst (inputs example_entry))"
    by (simp add: example_entry_def lit_def)
  have b: "distinct (map fst (inputs example_plain_entry))"
    by (simp add: example_plain_entry_def lit_def)
  have p: "list_all (\<lambda>c. 32 \<le> c \<and> c \<noteq> 34 \<and> c \<noteq> 92) (entry_codepoints example_plain_entry)"
    by (simp add: entry_codepoints_def example_plain_entry_def lit_def)
  then have q: "\<forall>c \<in> set (entry_codepoints example_plain_entry). 32 \<le> c \<and> c \<noteq> 34 \<and> c \<noteq> 92"
    by (simp add: list_all_iff)
  have t: "entry_text quoted example_plain_entry
       = [123, 10, 32, 32, 34, 110, 97, 109, 101, 34, 58, 32, 34, 90, 111, 233, 34,
          44, 10, 32, 32, 34, 116, 105, 109, 101, 115, 116, 97, 109, 112, 34, 58,
          32, 34, 48, 51, 32, 78, 111, 118, 34, 44, 10, 32, 32, 34, 105, 110, 112,
          117, 116, 115, 34, 58, 32, 123, 10, 32, 32, 32, 32, 34, 103, 111, 97, 108,
          115, 34, 58, 32, 34, 65, 73, 34, 44, 10, 32, 32, 32, 32, 34, 115, 107,
          105, 108, 108, 115, 34, 58, 32, 34, 128013, 34, 10, 32, 32, 125, 44, 10,
          32, 32, 34, 97, 100, 118, 105, 99, 101, 34, 58, 32, 34, 128640, 32, 71,
          111, 34, 10, 125]"
    by (simp add: entry_text_def quoted_def example_plain_entry_def lit_def)
  have r: "json_loads (export_json (entry_value example_entry))
             = Some (entry_value example_entry)"
    using export_json_roundtrip [OF a] by blast
  have x: "export_json (entry_value example_plain_entry)
             = entry_text quoted example_plain_entry"
    using export_json_roundtrip [OF b] q by blast
  show ?thesis
    by (intro conjI a r b p) (simp only: x t)
qed

end
